theory Spec2Isabelle
  imports Complex_Main "HOL-Library.Sublist"
begin

section \<open>Text utilities\<close>

text \<open>
  Python strings are modelled as \<^typ>\<open>string\<close>; a character is read as a code point below
  256. \<open>is_space\<close> is \<open>str.isspace\<close> on that range (it is also the whitespace class
  of a \<open>str\<close> pattern of \<open>re\<close> and what \<open>str.strip()\<close> removes), \<open>lower\<close> is
  \<open>str.lower\<close>.
\<close>

definition is_space :: "char \<Rightarrow> bool" where
  "is_space c = (let n = (of_char c :: nat) in
     (9 \<le> n \<and> n \<le> 13) \<or> (28 \<le> n \<and> n \<le> 32) \<or> n = 133 \<or> n = 160)"

definition lower_char :: "char \<Rightarrow> char" where
  "lower_char c = (let n = (of_char c :: nat) in
     if (65 \<le> n \<and> n \<le> 90) \<or> (192 \<le> n \<and> n \<le> 222 \<and> n \<noteq> 215)
     then char_of (n + 32) else c)"

definition lower :: "string \<Rightarrow> string" where
  "lower s = map lower_char s"

definition strip :: "string \<Rightarrow> string" where
  "strip s = rev (dropWhile is_space (rev (dropWhile is_space s)))"

text \<open>The substitution of \<open>_norm\<close>: every maximal run of whitespace becomes one blank.\<close>

function collapse_ws :: "string \<Rightarrow> string" where
  "collapse_ws [] = []"
| "collapse_ws (c # cs) =
     (if is_space c then CHR '' '' # collapse_ws (dropWhile is_space cs)
      else c # collapse_ws cs)"
  by pat_completeness auto
termination
  by (relation "measure length") (auto simp: length_dropWhile_le less_Suc_eq_le)

text \<open>\<open>_norm\<close> of both modules: strip, then collapse the whitespace runs.\<close>

definition norm_ws :: "string \<Rightarrow> string" where
  "norm_ws s = collapse_ws (strip s)"

text \<open>What a normalised text looks like: no whitespace at either end, and every
  whitespace character is a single blank followed by a non-whitespace character.\<close>

definition trimmed :: "string \<Rightarrow> bool" where
  "trimmed s = (s = [] \<or> (\<not> is_space (hd s) \<and> \<not> is_space (last s)))"

fun single_spaced :: "string \<Rightarrow> bool" where
  "single_spaced [] = True"
| "single_spaced [c] = (\<not> is_space c)"
| "single_spaced (c # d # cs) =
     ((is_space c \<longrightarrow> c = CHR '' '' \<and> \<not> is_space d) \<and> single_spaced (d # cs))"

text \<open>\<open>s.rsplit("/", 1)[-1]\<close> and \<open>s.split("/")[-1]\<close>: what follows the last slash.\<close>

definition last_segment :: "string \<Rightarrow> string" where
  "last_segment s = rev (takeWhile (\<lambda>c. c \<noteq> CHR ''/'') (rev s))"

text \<open>\<open>xs[:m]\<close> for an integer \<open>m\<close>; a negative \<open>m\<close> counts from the end.\<close>

definition py_take :: "int \<Rightarrow> 'a list \<Rightarrow> 'a list" where
  "py_take m xs = (if 0 \<le> m then take (nat m) xs else take (nat (int (length xs) + m)) xs)"


section \<open>Values, errors and the outside world\<close>

datatype py_error = APIError | JSONDecodeError | AttributeError | TypeError

text \<open>A value produced by \<open>json.loads\<close>. An object keeps its keys in insertion order.\<close>

datatype json =
    JNull
  | JBool bool
  | JNum rat
  | JStr string
  | JArr "json list"
  | JObj "(string \<times> json) list"

record triple =
  source :: string
  relation :: string
  target :: string

record edge = triple +
  source_graph :: string

record wtriple = triple +
  weight :: rat

text \<open>One element of the \<open>edges\<close> array of a ConceptNet response, as
  \<open>fetch_conceptnet_triples\<close> reads it: \<open>weight\<close> (0 when absent), the \<open>@id\<close> of
  \<open>rel\<close>, and \<open>label\<close> and \<open>@id\<close> of \<open>start\<close> and \<open>end\<close> (empty when absent).\<close>

record cn_node =
  label :: string
  at_id :: string

record cn_edge =
  cn_weight :: rat
  cn_rel :: string
  cn_start :: cn_node
  cn_end :: cn_node

text \<open>What the request of the Concept adapter comes to: an exception inside its guarded
  block (the request, the status check or the parse of the body), a body that is valid
  JSON but not an object, or an object, given by its \<open>edges\<close> array (empty when the key is
  absent).\<close>

datatype cn_reply = Failed | NotObject | Body "cn_edge list"

text \<open>
  Everything outside the repository that the code calls, each as a function of its
  request:
  \<^item> \<open>chat_filter\<close>, \<open>chat_define\<close>: the two chat-completion calls (client construction, the
    request and reading \<open>choices[0].message.content\<close>); \<open>Inl\<close> is the exception that
    leaves the calling function, raised by the client or the request or, for a response
    whose content is no text, by the parsing that follows;
  \<^item> \<open>json_loads\<close>: \<open>json.loads\<close>, \<open>None\<close> when it raises;
  \<^item> \<open>search_fence_obj\<close>, \<open>search_fence_any\<close>: group 1 of \<open>re.search\<close> with the filter's and
    the definition parser's fenced-block patterns, \<open>None\<close> when there is no match;
  \<^item> \<open>str_repr\<close>: \<open>str()\<close> of a value that is not a string;
  \<^item> \<open>url_quote\<close>: \<open>urllib.parse.quote\<close>;
  \<^item> \<open>conceptnet_get\<close>: the GET request on the term's URL with \<open>raise_for_status\<close> and
    \<open>resp.json()\<close>.
  The entity adapter \<open>fetch_dbpedia_triples\<close> (keyword and \<open>max_num\<close> to triples, called with
  \<open>exclude_wiki=True\<close>; \<open>Inl\<close> is an exception that leaves it) is kept as a parameter as
  well: the round only appends what it returns, and every statement below holds whatever
  it returns.
\<close>

record env =
  chat_filter :: "string list \<Rightarrow> py_error + string"
  chat_define :: "string \<Rightarrow> py_error + string"
  json_loads :: "string \<Rightarrow> json option"
  search_fence_obj :: "string \<Rightarrow> string option"
  search_fence_any :: "string \<Rightarrow> string option"
  str_repr :: "json \<Rightarrow> string"
  url_quote :: "string \<Rightarrow> string"
  conceptnet_get :: "string \<Rightarrow> cn_reply"
  fetch_dbpedia_triples :: "string \<Rightarrow> int option \<Rightarrow> py_error + triple list"

definition py_str :: "env \<Rightarrow> json \<Rightarrow> string" where
  "py_str ev j = (case j of JStr s \<Rightarrow> s | _ \<Rightarrow> str_repr ev j)"

definition tag_edge :: "string \<Rightarrow> triple \<Rightarrow> edge" where
  "tag_edge g t =
     \<lparr>source = source t, relation = relation t, target = target t, source_graph = g\<rparr>"


section \<open>The Deduplicator\<close>

type_synonym edge_sig = "string \<times> string \<times> string \<times> string"

definition dedup_step :: "edge list \<times> edge_sig set \<Rightarrow> edge \<Rightarrow> edge list \<times> edge_sig set" where
  "dedup_step st e =
     (let src = norm_ws (source e); rel = norm_ws (relation e); tgt = norm_ws (target e);
          g = source_graph e;
          sig = (lower src, rel, lower tgt, g)
      in if src = [] \<or> rel = [] \<or> tgt = [] then st
         else if sig \<in> snd st then st
         else (fst st @ [\<lparr>source = src, relation = rel, target = tgt, source_graph = g\<rparr>],
               insert sig (snd st)))"

definition dedup_edges :: "edge list \<Rightarrow> edge list" where
  "dedup_edges es = fst (foldl dedup_step ([], {}) es)"

text \<open>The identity key, the drop test and the stored form of an edge, named.\<close>

definition edge_key :: "edge \<Rightarrow> edge_sig" where
  "edge_key e =
     (lower (norm_ws (source e)), norm_ws (relation e), lower (norm_ws (target e)),
      source_graph e)"

definition populated :: "edge \<Rightarrow> bool" where
  "populated e =
     (norm_ws (source e) \<noteq> [] \<and> norm_ws (relation e) \<noteq> [] \<and> norm_ws (target e) \<noteq> [])"

definition canon :: "edge \<Rightarrow> edge" where
  "canon e =
     \<lparr>source = norm_ws (source e), relation = norm_ws (relation e),
      target = norm_ws (target e), source_graph = source_graph e\<rparr>"

text \<open>The Deduplicator as the specification words it: of the edges with three non-empty
  fields, the first occurrence of every identity key, in input order.\<close>

definition first_occurrence :: "edge list \<Rightarrow> nat \<Rightarrow> bool" where
  "first_occurrence es i =
     (populated (es ! i) \<and> (\<forall>j < i. edge_key (es ! j) \<noteq> edge_key (es ! i)))"

definition dedup_spec :: "edge list \<Rightarrow> edge list" where
  "dedup_spec es = map (\<lambda>i. canon (es ! i)) (filter (first_occurrence es) [0 ..< length es])"


section \<open>Seed edges and the initial queue\<close>

text \<open>An event record is a dict with string keys and values, given by its items in
  insertion order; \<open>row.get(k)\<close> is \<open>map_of row k\<close>.\<close>

type_synonym event = "(string \<times> string) list"

definition is_agent_key :: "string \<Rightarrow> bool" where
  "is_agent_key k = (let k_l = lower k in k_l = ''agent'' \<or> prefix ''agent'' k_l)"

text \<open>\<open>row.get(k1) or row.get(k2) or ... or ""\<close>.\<close>

fun get_or :: "event \<Rightarrow> string list \<Rightarrow> string" where
  "get_or row [] = []"
| "get_or row (k # ks) =
     (case map_of row k of
        Some v \<Rightarrow> if v \<noteq> [] then v else get_or row ks
      | None \<Rightarrow> get_or row ks)"

fun eventic_to_triples :: "event list \<Rightarrow> edge list" where
  "eventic_to_triples [] = []"
| "eventic_to_triples (row # rows) =
     (let agent = get_or row [''Agent'', ''agent'', ''Agent1'', ''agent1''];
          deon = get_or row [''Deontic'', ''deontic''];
          act = get_or row [''Action'', ''action'']
      in if agent \<noteq> [] \<and> deon \<noteq> [] \<and> act \<noteq> []
         then \<lparr>source = norm_ws agent, relation = norm_ws deon, target = norm_ws act,
               source_graph = ''eventic''\<rparr> # eventic_to_triples rows
         else eventic_to_triples rows)"

fun agent_cands :: "event list \<Rightarrow> string list" where
  "agent_cands [] = []"
| "agent_cands (row # rows) =
     (case find (\<lambda>(k, v). is_agent_key k) row of
        Some (k, cand) \<Rightarrow>
          if cand \<noteq> [] then norm_ws cand # agent_cands rows else agent_cands rows
      | None \<Rightarrow> agent_cands rows)"

definition uniq_step :: "string list \<times> string set \<Rightarrow> string \<Rightarrow> string list \<times> string set" where
  "uniq_step st a =
     (if a \<noteq> [] \<and> lower a \<notin> snd st then (fst st @ [a], insert (lower a) (snd st)) else st)"

definition extract_agents_from_eventic :: "event list \<Rightarrow> string list" where
  "extract_agents_from_eventic eventic_edges =
     fst (foldl uniq_step ([], {}) (agent_cands eventic_edges))"


section \<open>The Relevance Filter\<close>

text \<open>\<open>data\<close> of \<open>_pick_hard_agents_via_gpt\<close>: \<open>json.loads(text)\<close>, on failure the
  fenced block, whose \<open>json.loads\<close> is not guarded, or \<open>{"keep": []}\<close>.\<close>

definition filter_data :: "env \<Rightarrow> string \<Rightarrow> py_error + json" where
  "filter_data ev text =
     (case json_loads ev text of
        Some data \<Rightarrow> Inr data
      | None \<Rightarrow>
          (case search_fence_obj ev text of
             Some body \<Rightarrow>
               (case json_loads ev body of
                  Some data \<Rightarrow> Inr data
                | None \<Rightarrow> Inl JSONDecodeError)
           | None \<Rightarrow> Inr (JObj [(''keep'', JArr [])])))"

text \<open>What \<open>for t in keep\<close> iterates over, for \<open>keep = v or []\<close>.\<close>

fun iter_or_empty :: "json \<Rightarrow> py_error + json list" where
  "iter_or_empty (JArr xs) = Inr xs"
| "iter_or_empty (JStr s) = Inr (map (\<lambda>c. JStr [c]) s)"
| "iter_or_empty (JObj kvs) = Inr (map (\<lambda>kv. JStr (fst kv)) kvs)"
| "iter_or_empty JNull = Inr []"
| "iter_or_empty (JBool b) = (if b then Inl TypeError else Inr [])"
| "iter_or_empty (JNum n) = (if n = 0 then Inr [] else Inl TypeError)"

definition keep_of :: "json \<Rightarrow> py_error + json list" where
  "keep_of data =
     (case data of
        JObj kvs \<Rightarrow> (case map_of kvs ''keep'' of Some v \<Rightarrow> iter_or_empty v | None \<Rightarrow> Inr [])
      | _ \<Rightarrow> Inl AttributeError)"

definition cand_map :: "string list \<Rightarrow> string \<rightharpoonup> string" where
  "cand_map cands = foldl (\<lambda>m c. m(lower c \<mapsto> c)) Map.empty cands"

definition pick_step ::
  "(string \<rightharpoonup> string) \<Rightarrow> string list \<times> string set \<Rightarrow> string \<Rightarrow> string list \<times> string set" where
  "pick_step cmap st k =
     (case cmap k of
        Some c \<Rightarrow> if k \<notin> snd st then (fst st @ [c], insert k (snd st)) else st
      | None \<Rightarrow> st)"

definition keep_keys :: "env \<Rightarrow> json list \<Rightarrow> string list" where
  "keep_keys ev keep = map (\<lambda>t. lower (norm_ws (py_str ev t))) keep"

definition pick_from_keep :: "env \<Rightarrow> string list \<Rightarrow> json list \<Rightarrow> string list" where
  "pick_from_keep ev cands keep =
     fst (foldl (pick_step (cand_map cands)) ([], {}) (keep_keys ev keep))"

definition pick_hard_agents_via_gpt :: "env \<Rightarrow> string list \<Rightarrow> py_error + string list" where
  "pick_hard_agents_via_gpt ev cands =
     (if cands = [] then Inr []
      else case chat_filter ev cands of
        Inl err \<Rightarrow> Inl err
      | Inr text \<Rightarrow>
          (case filter_data ev text of
             Inl err \<Rightarrow> Inl err
           | Inr data \<Rightarrow>
               (case keep_of data of
                  Inl err \<Rightarrow> Inl err
                | Inr keep \<Rightarrow> Inr (pick_from_keep ev cands keep))))"


section \<open>The Concept adapter\<close>

definition norm_term :: "env \<Rightarrow> string \<Rightarrow> string" where
  "norm_term ev term =
     url_quote ev (map (\<lambda>c. if c = CHR '' '' then CHR ''_'' else c) (lower (strip term)))"

definition label_of :: "cn_node \<Rightarrow> string" where
  "label_of node = (if label node \<noteq> [] then label node else last_segment (at_id node))"

definition rel_of :: "string \<Rightarrow> string" where
  "rel_of rid = (if rid \<noteq> [] then last_segment rid else [])"

type_synonym triple_sig = "string \<times> string \<times> string"

definition cn_step ::
  "string list option \<Rightarrow> rat \<Rightarrow> wtriple list \<times> triple_sig set \<Rightarrow> cn_edge
     \<Rightarrow> wtriple list \<times> triple_sig set" where
  "cn_step relations min_weight st e =
     (let w = cn_weight e in
      if w < min_weight then st
      else let rel = rel_of (cn_rel e) in
        if (case relations of None \<Rightarrow> False | Some rs \<Rightarrow> rs \<noteq> [] \<and> rel \<notin> set rs) then st
        else let src = label_of (cn_start e); tgt = label_of (cn_end e);
                 sig = (lower src, rel, lower tgt)
          in if sig \<in> snd st then st
             else (fst st @ [\<lparr>source = src, relation = rel, target = tgt, weight = w\<rparr>],
                   insert sig (snd st)))"

definition pop_weight :: "wtriple \<Rightarrow> triple" where
  "pop_weight t = \<lparr>source = source t, relation = relation t, target = target t\<rparr>"

text \<open>The triples of a response body with their weights, after the collecting loop, the
  stable sort by descending weight and the cut at \<open>max_num\<close>.\<close>

definition cn_ranked ::
  "cn_edge list \<Rightarrow> string list option \<Rightarrow> rat \<Rightarrow> int option \<Rightarrow> wtriple list" where
  "cn_ranked body relations min_weight max_num =
     (let triples = fst (foldl (cn_step relations min_weight) ([], {}) body);
          triples = sort_key (\<lambda>x. - weight x) triples
      in case max_num of None \<Rightarrow> triples | Some m \<Rightarrow> py_take m triples)"

text \<open>What the adapter returns for a body: the ranked triples without their weights.\<close>

definition cn_result ::
  "cn_edge list \<Rightarrow> string list option \<Rightarrow> rat \<Rightarrow> int option \<Rightarrow> triple list" where
  "cn_result body relations min_weight max_num =
     map pop_weight (cn_ranked body relations min_weight max_num)"

text \<open>The guarded request returns the empty list on an exception; \<open>data.get\<close> on a body
  that is not an object is outside the guard and raises.\<close>

definition fetch_conceptnet_triples ::
  "env \<Rightarrow> string \<Rightarrow> string list option \<Rightarrow> rat \<Rightarrow> int option
     \<Rightarrow> py_error + triple list" where
  "fetch_conceptnet_triples ev keyword relations min_weight max_num =
     (case conceptnet_get ev (norm_term ev keyword) of
        Failed \<Rightarrow> Inr []
      | NotObject \<Rightarrow> Inl AttributeError
      | Body body \<Rightarrow> Inr (cn_result body relations min_weight max_num))"


section \<open>The Term-Definition adapter\<close>

definition from_dict :: "env \<Rightarrow> (string \<times> json) list \<Rightarrow> triple option" where
  "from_dict ev d =
     (let get = (\<lambda>k. case map_of d k of Some v \<Rightarrow> py_str ev v | None \<Rightarrow> []);
          src = norm_ws (get ''source'');
          rel = norm_ws (get ''relation'');
          tgt = norm_ws (get ''target'')
      in if src \<noteq> [] \<and> tgt \<noteq> [] \<and> rel \<noteq> []
         then Some \<lparr>source = src, relation = ''IsA'', target = tgt\<rparr>
         else None)"

text \<open>The two type tests that follow every \<open>json.loads\<close> of \<open>_coerce_single_triple\<close>.\<close>

definition triple_of_data :: "env \<Rightarrow> json \<Rightarrow> triple option" where
  "triple_of_data ev data =
     (case data of
        JObj d \<Rightarrow> from_dict ev d
      | JArr (JObj d # rest) \<Rightarrow> from_dict ev d
      | _ \<Rightarrow> None)"

definition try_parse :: "env \<Rightarrow> string \<Rightarrow> triple option" where
  "try_parse ev text =
     (case json_loads ev text of Some data \<Rightarrow> triple_of_data ev data | None \<Rightarrow> None)"

definition coerce_single_triple :: "env \<Rightarrow> string \<Rightarrow> string \<Rightarrow> triple" where
  "coerce_single_triple ev text keyword =
     (case try_parse ev text of
        Some tri \<Rightarrow> tri
      | None \<Rightarrow>
          (case (case search_fence_any ev text of
                   Some body \<Rightarrow> try_parse ev body
                 | None \<Rightarrow> None) of
             Some tri \<Rightarrow> tri
           | None \<Rightarrow> \<lparr>source = norm_ws keyword, relation = ''IsA'', target = []\<rparr>))"

definition build_term_definition_triples :: "env \<Rightarrow> string \<Rightarrow> py_error + triple list" where
  "build_term_definition_triples ev keyword =
     (case chat_define ev keyword of
        Inl err \<Rightarrow> Inl err
      | Inr text \<Rightarrow>
          Inr [(coerce_single_triple ev text keyword)
                 \<lparr>relation := ''IsA'', source := keyword\<rparr>])"


section \<open>The Expansion Round and the Fusion Orchestrator\<close>

record config =
  rounds :: int
  concept_min_weight :: rat
  concept_max :: "int option"
  entity_max :: "int option"
  include_tdg_edges :: bool
  use_concept_graph :: bool
  use_entity_graph :: bool
  use_term_definition_graph :: bool

record fusion_graph =
  edges :: "edge list"

text \<open>The body of \<open>for agent in hard_agents\<close>: the edges and the queue entries one agent
  adds, the three adapters called in the order of the source; an exception of one of them
  ends the round.\<close>

definition expand_agent :: "env \<Rightarrow> config \<Rightarrow> string \<Rightarrow> py_error + edge list \<times> string list" where
  "expand_agent ev cfg agent =
     (case (if use_concept_graph cfg
            then fetch_conceptnet_triples ev agent None (concept_min_weight cfg)
                   (concept_max cfg)
            else Inr []) of
        Inl err \<Rightarrow> Inl err
      | Inr c_tris \<Rightarrow>
          (case (if use_entity_graph cfg
                 then fetch_dbpedia_triples ev agent (entity_max cfg)
                 else Inr []) of
             Inl err \<Rightarrow> Inl err
           | Inr e_tris \<Rightarrow>
               (case (if use_term_definition_graph cfg
                      then build_term_definition_triples ev agent else Inr []) of
                  Inl err \<Rightarrow> Inl err
                | Inr tdg_tris \<Rightarrow>
                    Inr (map (tag_edge ''concept'') c_tris @ map (tag_edge ''entity'') e_tris
                           @ (if include_tdg_edges cfg
                              then map (tag_edge ''term_definition'') tdg_tris else []),
                         map target c_tris @ map target e_tris))))"

fun expand_loop ::
  "env \<Rightarrow> config \<Rightarrow> string list \<Rightarrow> edge list \<Rightarrow> string list
     \<Rightarrow> py_error + edge list \<times> string list" where
  "expand_loop ev cfg [] es next_queue = Inr (es, next_queue)"
| "expand_loop ev cfg (agent # rest) es next_queue =
     (case expand_agent ev cfg agent of
        Inl err \<Rightarrow> Inl err
      | Inr (new_es, new_q) \<Rightarrow> expand_loop ev cfg rest (es @ new_es) (next_queue @ new_q))"

definition frontier_step ::
  "string set \<Rightarrow> string list \<times> string set \<Rightarrow> string \<Rightarrow> string list \<times> string set" where
  "frontier_step current_set st x =
     (let xn = norm_ws x in
      if xn = [] then st
      else let k = lower xn in
        if k \<in> current_set \<or> k \<in> snd st then st
        else (fst st @ [xn], insert k (snd st)))"

definition next_frontier :: "string list \<Rightarrow> string list \<Rightarrow> string list" where
  "next_frontier agent_list next_queue =
     fst (foldl (frontier_step (set (map lower agent_list))) ([], {}) next_queue)"

definition expand_once ::
  "env \<Rightarrow> config \<Rightarrow> string list \<Rightarrow> py_error + edge list \<times> string list" where
  "expand_once ev cfg agent_list =
     (case pick_hard_agents_via_gpt ev agent_list of
        Inl err \<Rightarrow> Inl err
      | Inr picked \<Rightarrow>
          (let hard_agents = (if picked = [] then agent_list else picked) in
           case expand_loop ev cfg hard_agents [] [] of
             Inl err \<Rightarrow> Inl err
           | Inr (es, next_queue) \<Rightarrow>
               Inr (dedup_edges es, next_frontier agent_list next_queue)))"

text \<open>\<open>for round_idx in range(...)\<close> with its \<open>break\<close> on an empty queue.\<close>

fun rounds_loop ::
  "env \<Rightarrow> config \<Rightarrow> nat \<Rightarrow> edge list \<Rightarrow> string list \<Rightarrow> py_error + edge list" where
  "rounds_loop ev cfg 0 final_edges agents_queue = Inr final_edges"
| "rounds_loop ev cfg (Suc n) final_edges agents_queue =
     (if agents_queue = [] then Inr final_edges
      else case expand_once ev cfg agents_queue of
        Inl err \<Rightarrow> Inl err
      | Inr (step_edges, new_queue) \<Rightarrow>
          rounds_loop ev cfg n (final_edges @ step_edges) new_queue)"

definition build_fusion_graph :: "env \<Rightarrow> config \<Rightarrow> event list \<Rightarrow> py_error + fusion_graph" where
  "build_fusion_graph ev cfg eventic_edges =
     (case rounds_loop ev cfg (nat (max 0 (rounds cfg)))
             (eventic_to_triples eventic_edges)
             (extract_agents_from_eventic eventic_edges) of
        Inl err \<Rightarrow> Inl err
      | Inr final_edges \<Rightarrow> Inr \<lparr>edges = dedup_edges final_edges\<rparr>)"

text \<open>The step edges of all rounds of a run, in order (empty where a round raises).\<close>

fun collected :: "env \<Rightarrow> config \<Rightarrow> nat \<Rightarrow> string list \<Rightarrow> edge list" where
  "collected ev cfg 0 agents_queue = []"
| "collected ev cfg (Suc n) agents_queue =
     (if agents_queue = [] then []
      else case expand_once ev cfg agents_queue of
        Inl err \<Rightarrow> []
      | Inr (step_edges, new_queue) \<Rightarrow> step_edges @ collected ev cfg n new_queue)"


section \<open>Auxiliary definitions for the proofs\<close>

text \<open>The loop unrolled: what it appends for a given set of keys already seen.\<close>

fun kept_from :: "edge_sig set \<Rightarrow> edge list \<Rightarrow> edge list" where
  "kept_from seen [] = []"
| "kept_from seen (e # es) =
     (if populated e \<and> edge_key e \<notin> seen
      then canon e # kept_from (insert (edge_key e) seen) es
      else kept_from seen es)"

text \<open>Index \<open>i\<close> is a first occurrence whose key is not among \<open>seen\<close>.\<close>

definition fresh_at :: "edge_sig set \<Rightarrow> edge list \<Rightarrow> nat \<Rightarrow> bool" where
  "fresh_at seen es i = (first_occurrence es i \<and> edge_key (es ! i) \<notin> seen)"

text \<open>No parse of the answer succeeds: neither the text nor a fenced block in it gives a
  triple.\<close>

definition parse_fails :: "env \<Rightarrow> string \<Rightarrow> bool" where
  "parse_fails ev text =
     (try_parse ev text = None
      \<and> (case search_fence_any ev text of Some body \<Rightarrow> try_parse ev body = None | None \<Rightarrow> True))"

text \<open>The frontier loop unrolled, for a given set of keys already seen.\<close>

fun frontier_from :: "string set \<Rightarrow> string set \<Rightarrow> string list \<Rightarrow> string list" where
  "frontier_from cur seen [] = []"
| "frontier_from cur seen (x # xs) =
     (if norm_ws x = [] \<or> lower (norm_ws x) \<in> cur \<or> lower (norm_ws x) \<in> seen
      then frontier_from cur seen xs
      else norm_ws x # frontier_from cur (insert (lower (norm_ws x)) seen) xs)"

text \<open>The filter's last loop unrolled.\<close>

fun picked_from :: "(string \<rightharpoonup> string) \<Rightarrow> string set \<Rightarrow> string list \<Rightarrow> string list" where
  "picked_from cmap seen [] = []"
| "picked_from cmap seen (k # ks) =
     (case cmap k of
        Some c \<Rightarrow> if k \<notin> seen then c # picked_from cmap (insert k seen) ks
                  else picked_from cmap seen ks
      | None \<Rightarrow> picked_from cmap seen ks)"

text \<open>The pieces of the Concept adapter's loop, named: the tests an element of the
  response passes, the triple made of it, and the key of a triple within one call.\<close>

definition cn_accepts :: "string list option \<Rightarrow> rat \<Rightarrow> cn_edge \<Rightarrow> bool" where
  "cn_accepts relations min_weight e =
     (min_weight \<le> cn_weight e
      \<and> (case relations of None \<Rightarrow> True | Some rs \<Rightarrow> rs = [] \<or> rel_of (cn_rel e) \<in> set rs))"

definition cn_triple :: "cn_edge \<Rightarrow> wtriple" where
  "cn_triple e =
     \<lparr>source = label_of (cn_start e), relation = rel_of (cn_rel e),
      target = label_of (cn_end e), weight = cn_weight e\<rparr>"

definition triple_key :: "'a triple_scheme \<Rightarrow> triple_sig" where
  "triple_key t = (lower (source t), relation t, lower (target t))"

fun cn_kept :: "string list option \<Rightarrow> rat \<Rightarrow> triple_sig set \<Rightarrow> cn_edge list \<Rightarrow> wtriple list" where
  "cn_kept relations min_weight seen [] = []"
| "cn_kept relations min_weight seen (e # es) =
     (if cn_accepts relations min_weight e \<and> triple_key (cn_triple e) \<notin> seen
      then cn_triple e # cn_kept relations min_weight (insert (triple_key (cn_triple e)) seen) es
      else cn_kept relations min_weight seen es)"


text \<open>Triple \<open>t\<close> is one of those that an enabled Concept or Entity adapter returns for
  the agent \<open>a\<close>.\<close>

definition fetched :: "env \<Rightarrow> config \<Rightarrow> string \<Rightarrow> triple \<Rightarrow> bool" where
  "fetched ev cfg a t =
     ((use_concept_graph cfg
       \<and> (\<exists>ts. fetch_conceptnet_triples ev a None (concept_min_weight cfg) (concept_max cfg)
                   = Inr ts \<and> t \<in> set ts))
      \<or> (use_entity_graph cfg
          \<and> (\<exists>ts. fetch_dbpedia_triples ev a (entity_max cfg) = Inr ts \<and> t \<in> set ts)))"


text \<open>Every element once, at the place of its first occurrence.\<close>

function first_mentions :: "'a list \<Rightarrow> 'a list" where
  "first_mentions [] = []"
| "first_mentions (x # xs) = x # first_mentions (removeAll x xs)"
  by pat_completeness auto
termination
  by (relation "measure length") (auto simp: length_removeAll_less_eq less_Suc_eq_le)

text \<open>The candidate that \<open>cand_map\<close> holds under a key: the last one with that lowercase
  form.\<close>

definition named_candidate :: "string list \<Rightarrow> string \<Rightarrow> string" where
  "named_candidate cands k = last (filter (\<lambda>c. lower c = k) cands)"

text \<open>The keys of a list that are not among \<open>seen\<close>, each once, in order of first
  occurrence.\<close>

fun firsts_from :: "'a set \<Rightarrow> 'a list \<Rightarrow> 'a list" where
  "firsts_from seen [] = []"
| "firsts_from seen (k # ks) =
     (if k \<in> seen then firsts_from seen ks else k # firsts_from (insert k seen) ks)"

text \<open>The identity key as claim C3 words it, on the fields as they are given.\<close>

definition raw_key :: "edge \<Rightarrow> edge_sig" where
  "raw_key e = (lower (source e), relation e, lower (target e), source_graph e)"

text \<open>An event record of the shape the specification gives it, and the conversion of such
  records in the specification's words: source, relation and target are the Agent, the
  Deontic and the Action, the tag is \<open>eventic\<close>, and a record that lacks one of the
  three is dropped.\<close>

definition event_record :: "string \<times> string \<times> string \<Rightarrow> event" where
  "event_record r =
     (case r of (agent, deon, act) \<Rightarrow> [(''Agent'', agent), (''Deontic'', deon), (''Action'', act)])"

definition seed_spec :: "(string \<times> string \<times> string) list \<Rightarrow> edge list" where
  "seed_spec rs =
     map (\<lambda>(agent, deon, act).
            \<lparr>source = agent, relation = deon, target = act, source_graph = ''eventic''\<rparr>)
         (filter (\<lambda>(agent, deon, act). agent \<noteq> [] \<and> deon \<noteq> [] \<and> act \<noteq> []) rs)"


section \<open>Example inputs\<close>

definition ex_a :: edge where
  "ex_a = \<lparr>source = ''GDPR'', relation = ''IsA'', target = ''EU  law'', source_graph = ''concept''\<rparr>"
definition ex_b :: edge where
  "ex_b = \<lparr>source = '' gdpr'', relation = ''IsA'', target = ''eu Law'', source_graph = ''concept''\<rparr>"
definition ex_c :: edge where
  "ex_c = \<lparr>source = ''gdpr'', relation = ''IsA'', target = ''EU law'', source_graph = ''entity''\<rparr>"
definition ex_d :: edge where
  "ex_d = \<lparr>source = ''GDPR'', relation = ''isa'', target = ''EU law'', source_graph = ''concept''\<rparr>"
definition ex_e :: edge where
  "ex_e = \<lparr>source = ''GDPR'', relation = ''IsA'', target = ''  '', source_graph = ''term_definition''\<rparr>"

definition ex_rows :: "event list" where
  "ex_rows = [[(''Agent'', ''Controller''), (''Deontic'', ''must''),
               (''Action'', ''delete  personal data '')]]"

definition ex_cfg :: config where
  "ex_cfg = \<lparr>rounds = 1, concept_min_weight = 4, concept_max = Some 3, entity_max = Some 3,
             include_tdg_edges = True, use_concept_graph = True, use_entity_graph = True,
             use_term_definition_graph = True\<rparr>"

text \<open>Every external source unavailable: both model calls raise, the ConceptNet request
  raises, the entity adapter finds nothing.\<close>

definition env_down :: env where
  "env_down = \<lparr>chat_filter = (\<lambda>cands. Inl APIError), chat_define = (\<lambda>keyword. Inl APIError),
               json_loads = (\<lambda>text. None), search_fence_obj = (\<lambda>text. None),
               search_fence_any = (\<lambda>text. None), str_repr = (\<lambda>j. ''None''),
               url_quote = (\<lambda>s. s), conceptnet_get = (\<lambda>term. Failed),
               fetch_dbpedia_triples = (\<lambda>keyword max_num. Inr [])\<rparr>"

text \<open>The same, except that the filter's model call answers (with text that is no JSON).\<close>

definition env_filter_up :: env where
  "env_filter_up = env_down\<lparr>chat_filter := (\<lambda>cands. Inr ''none'')\<rparr>"

definition ex_body :: "cn_edge list" where
  "ex_body =
    [\<lparr>cn_weight = 2, cn_rel = ''/r/RelatedTo'',
      cn_start = \<lparr>label = ''controller'', at_id = ''/c/en/controller''\<rparr>,
      cn_end = \<lparr>label = ''weak'', at_id = ''/c/en/weak''\<rparr>\<rparr>,
     \<lparr>cn_weight = 5, cn_rel = ''/r/IsA'',
      cn_start = \<lparr>label = ''controller'', at_id = ''/c/en/controller''\<rparr>,
      cn_end = \<lparr>label = ''Data  Manager'', at_id = ''/c/en/data_manager''\<rparr>\<rparr>,
     \<lparr>cn_weight = 9, cn_rel = ''/r/UsedFor'',
      cn_start = \<lparr>label = ''controller'', at_id = ''/c/en/controller''\<rparr>,
      cn_end = \<lparr>label = [], at_id = ''/c/en/control''\<rparr>\<rparr>,
     \<lparr>cn_weight = 7, cn_rel = ''/r/UsedFor'',
      cn_start = \<lparr>label = ''Controller'', at_id = ''/c/en/controller''\<rparr>,
      cn_end = \<lparr>label = ''CONTROL'', at_id = ''/c/en/control''\<rparr>\<rparr>,
     \<lparr>cn_weight = 5, cn_rel = ''/r/Synonym'',
      cn_start = \<lparr>label = ''controller'', at_id = ''/c/en/controller''\<rparr>,
      cn_end = \<lparr>label = ''regulator'', at_id = ''/c/en/regulator''\<rparr>\<rparr>]"

text \<open>A run in which every source answers: the filter keeps the one candidate, ConceptNet
  knows it, the entity adapter returns two triples (one pointing back at the agent), and
  the definition call answers with text that cannot be parsed.\<close>

definition ex_env :: env where
  "ex_env =
     \<lparr>chat_filter = (\<lambda>cands. Inr ''keep-first''),
      chat_define = (\<lambda>keyword. Inr ''no json here''),
      json_loads = (\<lambda>text.
         if text = ''keep-first'' then Some (JObj [(''keep'', JArr [JStr '' controller ''])])
         else if text = ''definition''
         then Some (JObj [(''source'', JStr ''a controller''), (''relation'', JStr ''is''),
                          (''target'', JStr ''Party that  decides.'')])
         else None),
      search_fence_obj = (\<lambda>text. None),
      search_fence_any = (\<lambda>text. None),
      str_repr = (\<lambda>j. ''None''),
      url_quote = (\<lambda>s. s),
      conceptnet_get = (\<lambda>term. if term = ''controller'' then Body ex_body else Failed),
      fetch_dbpedia_triples =
        (\<lambda>keyword max_num.
           if keyword = ''Controller''
           then Inr [\<lparr>source = ''Controller'', relation = ''type'', target = ''Device''\<rparr>,
                     \<lparr>source = ''Controller'', relation = ''subject'',
                      target = ''CONTROLLER''\<rparr>]
           else Inr [])\<rparr>"

text \<open>The same run with a definition call whose answer parses.\<close>

definition ex_env_def :: env where
  "ex_env_def = ex_env\<lparr>chat_define := (\<lambda>keyword. Inr ''definition'')\<rparr>"

definition ex_graph :: fusion_graph where
  "ex_graph =
     \<lparr>edges =
        [\<lparr>source = ''Controller'', relation = ''must'', target = ''delete personal data'',
          source_graph = ''eventic''\<rparr>,
         \<lparr>source = ''controller'', relation = ''UsedFor'', target = ''control'',
          source_graph = ''concept''\<rparr>,
         \<lparr>source = ''controller'', relation = ''IsA'', target = ''Data Manager'',
          source_graph = ''concept''\<rparr>,
         \<lparr>source = ''controller'', relation = ''Synonym'', target = ''regulator'',
          source_graph = ''concept''\<rparr>,
         \<lparr>source = ''Controller'', relation = ''type'', target = ''Device'',
          source_graph = ''entity''\<rparr>,
         \<lparr>source = ''Controller'', relation = ''subject'', target = ''CONTROLLER'',
          source_graph = ''entity''\<rparr>]\<rparr>"

text \<open>The filter's model reverses the two candidates in its keep list.\<close>

definition env_swap :: env where
  "env_swap = ex_env\<lparr>json_loads :=
     (\<lambda>text. if text = ''keep-first''
             then Some (JObj [(''keep'', JArr [JStr ''gdpr'', JStr ''TESLA'', JStr ''Acme'',
                                              JStr ''GDPR'', JNull])])
             else None)\<rparr>"

definition ex_step :: "edge list" where
  "ex_step = tl (edges ex_graph)"

definition ex_frontier :: "string list" where
  "ex_frontier = [''control'', ''Data Manager'', ''regulator'', ''Device'']"

definition ex_keep :: "json list" where
  "ex_keep = [JStr ''gdpr'', JStr ''TESLA'', JStr ''Acme'', JStr ''GDPR'', JNull]"

definition ex_rows2 :: "event list" where
  "ex_rows2 = ex_rows @ [[(''agent'', ''controller''), (''deontic'', ''must''),
                          (''action'', ''Delete personal data'')]]"

definition ex_cfg_off :: config where
  "ex_cfg_off = ex_cfg\<lparr>use_concept_graph := False, use_entity_graph := False,
                        use_term_definition_graph := False\<rparr>"

definition ex_seed_graph :: fusion_graph where
  "ex_seed_graph = \<lparr>edges = [hd (edges ex_graph)]\<rparr>"

definition ex_placeholder :: triple where
  "ex_placeholder = \<lparr>source = ''Controller'', relation = ''IsA'', target = []\<rparr>"

definition ex_definition :: triple where
  "ex_definition = \<lparr>source = ''Controller'', relation = ''IsA'', target = ''Party that decides.''\<rparr>"

definition ex_step_def :: "edge list" where
  "ex_step_def = ex_step @ [tag_edge ''term_definition'' ex_definition]"

definition ex_cfg_hide :: config where
  "ex_cfg_hide = ex_cfg\<lparr>include_tdg_edges := False\<rparr>"

definition ex_ranked :: "wtriple list" where
  "ex_ranked =
     [\<lparr>source = ''controller'', relation = ''UsedFor'', target = ''control'', weight = 9\<rparr>,
      \<lparr>source = ''controller'', relation = ''IsA'', target = ''Data  Manager'', weight = 5\<rparr>,
      \<lparr>source = ''controller'', relation = ''Synonym'', target = ''regulator'', weight = 5\<rparr>]"


definition ex_p :: edge where
  "ex_p = \<lparr>source = ''GDPR'', relation = ''IsA'', target = [], source_graph = ''concept''\<rparr>"

definition ex_q :: edge where
  "ex_q = \<lparr>source = ''gdpr'', relation = ''IsA'', target = [], source_graph = ''entity''\<rparr>"

definition ex_r :: edge where
  "ex_r = \<lparr>source = ''GDPR'', relation = '' IsA'', target = ''EU law'', source_graph = ''concept''\<rparr>"

definition ex_s :: edge where
  "ex_s = \<lparr>source = ''GDPR'', relation = ''IsA'', target = ''EU law'', source_graph = ''concept''\<rparr>"

definition ex_events :: "(string \<times> string \<times> string) list" where
  "ex_events =
     [(''Controller'', ''must'', ''delete  personal data ''),
      (''controller'', ''must'', ''Delete personal data''),
      ([], ''may'', ''impose fines''),
      (''Processor'', ''must_not'', ''transfer data'')]"

definition ex_cfg_zero :: config where
  "ex_cfg_zero = ex_cfg\<lparr>rounds := 0\<rparr>"

text \<open>Candidates with two spellings of one name, and a keep list that names it twice.\<close>

definition ex_cands :: "string list" where
  "ex_cands = [''Tesla'', ''Gdpr'', ''Seller'', ''GDPR'']"


section \<open>Properties of the components\<close>

subsection \<open>Normalisation\<close>

lemma lower_Nil_iff: "lower s = [] \<longleftrightarrow> s = []"
  by (simp add: lower_def)

lemma collapse_ws_Nil_iff: "collapse_ws t = [] \<longleftrightarrow> t = []"
  by (cases t) auto

lemma hd_collapse_ws: "t \<noteq> [] \<Longrightarrow> \<not> is_space (hd t) \<Longrightarrow> hd (collapse_ws t) = hd t"
  by (cases t) auto

lemma dropWhile_keeps_last:
  "cs \<noteq> [] \<Longrightarrow> \<not> P (last cs) \<Longrightarrow> dropWhile P cs \<noteq> [] \<and> last (dropWhile P cs) = last cs"
  by (induction cs) (auto split: if_splits)

lemma single_spaced_collapse_ws:
  "t = [] \<or> \<not> is_space (last t) \<Longrightarrow> single_spaced (collapse_ws t)"
proof (induction t rule: collapse_ws.induct)
  case 1
  show ?case by simp
next
  case (2 c cs)
  show ?case
  proof (cases "is_space c")
    case True
    with "2.prems" have cs: "cs \<noteq> []" "\<not> is_space (last cs)"
      by (auto split: if_splits)
    define d where "d = dropWhile is_space cs"
    from cs have d: "d \<noteq> []" "last d = last cs"
      unfolding d_def using dropWhile_keeps_last [of cs is_space] by auto
    have hd_d: "\<not> is_space (hd d)"
      unfolding d_def using d(1) hd_dropWhile [of is_space cs] by (simp add: d_def)
    obtain x xs where x: "d = x # xs" using d(1) by (cases d) auto
    have ih: "single_spaced (collapse_ws d)"
      using "2.IH"(1) [OF True] d cs by (simp add: d_def)
    from x hd_d have "collapse_ws d = x # collapse_ws xs" by simp
    with ih hd_d x True show ?thesis
      by (simp add: d_def [symmetric])
  next
    case False
    show ?thesis
    proof (cases cs)
      case Nil
      with False show ?thesis by simp
    next
      case (Cons y ys)
      with "2.prems" have "\<not> is_space (last cs)" by auto
      with "2.IH"(2) [OF False] have ih: "single_spaced (collapse_ws cs)" by simp
      from Cons have "collapse_ws cs \<noteq> []" by (simp add: collapse_ws_Nil_iff)
      then obtain z zs where "collapse_ws cs = z # zs" by (cases "collapse_ws cs") auto
      with ih False show ?thesis by simp
    qed
  qed
qed

lemma single_spaced_last: "single_spaced s \<Longrightarrow> s \<noteq> [] \<Longrightarrow> \<not> is_space (last s)"
  by (induction s rule: single_spaced.induct) auto

lemma strip_trimmed: "trimmed (strip s)"
proof -
  define t where "t = dropWhile is_space s"
  define u where "u = dropWhile is_space (rev t)"
  have st: "strip s = rev u" by (simp add: strip_def t_def u_def)
  show ?thesis
  proof (cases "u = []")
    case True
    with st show ?thesis by (simp add: trimmed_def)
  next
    case False
    then have hu: "\<not> is_space (hd u)"
      unfolding u_def using hd_dropWhile [of is_space "rev t"] by simp
    from False have t: "t \<noteq> []" by (auto simp: u_def)
    then have ht: "\<not> is_space (hd t)"
      unfolding t_def using hd_dropWhile [of is_space s] by simp
    obtain p where "rev t = p @ u"
      unfolding u_def by (metis takeWhile_dropWhile_id)
    with False have "last u = last (rev t)" by simp
    with t have "last u = hd t" by (simp add: last_rev)
    with hu ht False st show ?thesis
      by (simp add: trimmed_def hd_rev last_rev)
  qed
qed

lemma norm_ws_single_spaced: "single_spaced (norm_ws s)"
  using strip_trimmed [of s] single_spaced_collapse_ws [of "strip s"]
  by (auto simp: norm_ws_def trimmed_def)

lemma norm_ws_trimmed: "trimmed (norm_ws s)"
proof (cases "strip s = []")
  case True
  then show ?thesis by (simp add: norm_ws_def trimmed_def)
next
  case False
  with strip_trimmed [of s] have h: "\<not> is_space (hd (strip s))"
    by (simp add: trimmed_def)
  have ne: "norm_ws s \<noteq> []" using False by (simp add: norm_ws_def collapse_ws_Nil_iff)
  have "hd (norm_ws s) = hd (strip s)"
    using hd_collapse_ws [OF False h] by (simp add: norm_ws_def)
  with h ne single_spaced_last [OF norm_ws_single_spaced ne] show ?thesis
    by (simp add: trimmed_def)
qed

lemma strip_id: "trimmed s \<Longrightarrow> strip s = s"
proof (cases s)
  case Nil
  then show ?thesis by (simp add: strip_def)
next
  case (Cons c cs)
  assume "trimmed s"
  with Cons have a: "\<not> is_space (hd s)" and b: "\<not> is_space (last s)" and ne: "s \<noteq> []"
    by (auto simp: trimmed_def)
  from a ne have 1: "dropWhile is_space s = s" by (cases s) auto
  from b ne have 2: "dropWhile is_space (rev s) = rev s"
    by (cases "rev s") (auto simp: last_rev hd_rev [symmetric] simp del: rev_is_Nil_conv)
  show ?thesis by (simp add: strip_def 1 2)
qed

lemma collapse_ws_id: "single_spaced s \<Longrightarrow> collapse_ws s = s"
  by (induction s rule: single_spaced.induct) auto

lemma norm_ws_idem: "norm_ws (norm_ws s) = norm_ws s"
  using strip_id [OF norm_ws_trimmed [of s]] collapse_ws_id [OF norm_ws_single_spaced [of s]]
  by (simp add: norm_ws_def)

subsection \<open>Deduplicator\<close>

lemma edge_key_canon: "edge_key (canon e) = edge_key e"
  by (simp add: edge_key_def canon_def norm_ws_idem)

lemma populated_canon: "populated (canon e) = populated e"
  by (simp add: populated_def canon_def norm_ws_idem)

lemma dedup_step_eq:
  "dedup_step st e =
     (if populated e \<and> edge_key e \<notin> snd st
      then (fst st @ [canon e], insert (edge_key e) (snd st)) else st)"
  by (simp add: dedup_step_def populated_def edge_key_def canon_def Let_def)

lemma foldl_dedup_step:
  "foldl dedup_step (out, seen) es =
     (out @ kept_from seen es, seen \<union> edge_key ` {e \<in> set es. populated e})"
proof (induction es arbitrary: out seen)
  case Nil
  show ?case by simp
next
  case (Cons e es)
  show ?case
  proof (cases "populated e \<and> edge_key e \<notin> seen")
    case True
    then have "dedup_step (out, seen) e = (out @ [canon e], insert (edge_key e) seen)"
      by (simp add: dedup_step_eq)
    moreover have "insert (edge_key e) seen \<union> edge_key ` {x \<in> set es. populated x}
        = seen \<union> edge_key ` {x \<in> set (e # es). populated x}"
      using True by auto
    ultimately show ?thesis
      using Cons.IH [of "out @ [canon e]" "insert (edge_key e) seen"] True by simp
  next
    case False
    then have "dedup_step (out, seen) e = (out, seen)"
      by (simp add: dedup_step_eq)
    moreover have "seen \<union> edge_key ` {x \<in> set es. populated x}
        = seen \<union> edge_key ` {x \<in> set (e # es). populated x}"
      using False by auto
    ultimately show ?thesis
      using Cons.IH [of out seen] False by auto
  qed
qed

lemma dedup_edges_kept_from: "dedup_edges es = kept_from {} es"
  by (simp add: dedup_edges_def foldl_dedup_step)

lemma keys_kept_from:
  "edge_key ` set (kept_from seen es) = edge_key ` {e \<in> set es. populated e} - seen"
  by (induction es arbitrary: seen) (auto simp: edge_key_canon)

lemma distinct_kept_from: "distinct (map edge_key (kept_from seen es))"
proof (induction es arbitrary: seen)
  case Nil
  show ?case by simp
next
  case (Cons e es)
  have "edge_key e \<notin> edge_key ` set (kept_from (insert (edge_key e) seen) es)"
    by (simp add: keys_kept_from)
  with Cons.IH show ?case by (simp add: edge_key_canon)
qed

lemma kept_from_canonical: "x \<in> set (kept_from seen es) \<Longrightarrow> \<exists>e \<in> set es. populated e \<and> x = canon e"
  by (induction es arbitrary: seen) (auto split: if_splits)

lemma kept_from_append:
  "kept_from seen (xs @ ys) =
     kept_from seen xs @ kept_from (seen \<union> edge_key ` {e \<in> set xs. populated e}) ys"
proof (induction xs arbitrary: seen)
  case Nil
  show ?case by simp
next
  case (Cons x xs)
  have *: "insert (edge_key x) seen \<union> edge_key ` {e \<in> set xs. populated e}
         = seen \<union> edge_key ` {e \<in> set (x # xs). populated e}" if "populated x"
    using that by auto
  have **: "seen \<union> edge_key ` {e \<in> set xs. populated e}
         = seen \<union> edge_key ` {e \<in> set (x # xs). populated e}" if "\<not> populated x \<or> edge_key x \<in> seen"
    using that by auto
  show ?case
  proof (cases "populated x \<and> edge_key x \<notin> seen")
    case True
    then show ?thesis using Cons.IH [of "insert (edge_key x) seen"] * by simp
  next
    case False
    then show ?thesis using Cons.IH [of seen] ** by auto
  qed
qed

lemma populated_key_cong: "populated a \<Longrightarrow> edge_key a = edge_key b \<Longrightarrow> populated b"
  by (auto simp: populated_def edge_key_def lower_def)

lemma fresh_at_Suc_kept:
  "populated e \<Longrightarrow> edge_key e \<notin> seen \<Longrightarrow>
   fresh_at seen (e # es) (Suc i) = fresh_at (insert (edge_key e) seen) es i"
  by (auto simp: fresh_at_def first_occurrence_def All_less_Suc2)

lemma fresh_at_Suc_skipped:
  "\<not> (populated e \<and> edge_key e \<notin> seen) \<Longrightarrow>
   fresh_at seen (e # es) (Suc i) = fresh_at seen es i"
  using populated_key_cong [of "es ! i" e]
  by (auto simp: fresh_at_def first_occurrence_def All_less_Suc2)

lemma fresh_at_0: "fresh_at seen (e # es) 0 = (populated e \<and> edge_key e \<notin> seen)"
  by (simp add: fresh_at_def first_occurrence_def)

lemma upt_Suc_shift: "[0 ..< Suc n] = 0 # map Suc [0 ..< n]"
  by (simp add: upt_conv_Cons map_Suc_upt del: upt_Suc)

lemma kept_from_indices:
  "kept_from seen es = map (\<lambda>i. canon (es ! i)) (filter (fresh_at seen es) [0 ..< length es])"
proof (induction es arbitrary: seen)
  case Nil
  show ?case by simp
next
  case (Cons e es)
  have len: "[0 ..< length (e # es)] = 0 # map Suc [0 ..< length es]"
    using upt_Suc_shift [of "length es"] by simp
  show ?case
  proof (cases "populated e \<and> edge_key e \<notin> seen")
    case True
    then have "filter (fresh_at seen (e # es)) (map Suc [0 ..< length es])
        = map Suc (filter (fresh_at (insert (edge_key e) seen) es) [0 ..< length es])"
      by (simp add: filter_map o_def fresh_at_Suc_kept)
    with True show ?thesis
      unfolding len by (simp add: fresh_at_0 Cons.IH o_def)
  next
    case False
    then have "filter (fresh_at seen (e # es)) (map Suc [0 ..< length es])
        = map Suc (filter (fresh_at seen es) [0 ..< length es])"
      by (simp add: filter_map o_def fresh_at_Suc_skipped)
    moreover from False have "kept_from seen (e # es) = kept_from seen es"
      by auto
    moreover from False have "\<not> fresh_at seen (e # es) 0"
      by (simp add: fresh_at_0)
    ultimately show ?thesis
      unfolding len by (simp add: Cons.IH o_def)
  qed
qed

lemma fresh_at_empty: "fresh_at {} es = first_occurrence es"
  by (rule ext) (simp add: fresh_at_def)

lemma dedup_edges_spec: "dedup_edges es = dedup_spec es"
  by (simp add: dedup_edges_kept_from kept_from_indices dedup_spec_def fresh_at_empty)

lemma distinct_dedup_keys: "distinct (map edge_key (dedup_edges es))"
  by (simp add: dedup_edges_kept_from distinct_kept_from)

lemma dedup_keys: "edge_key ` set (dedup_edges es) = edge_key ` {e \<in> set es. populated e}"
  by (simp add: dedup_edges_kept_from keys_kept_from)

lemma dedup_canonical: "x \<in> set (dedup_edges es) \<Longrightarrow> \<exists>e \<in> set es. populated e \<and> x = canon e"
  by (simp add: dedup_edges_kept_from kept_from_canonical)

lemma dedup_has_key:
  assumes "a \<in> set es" "populated a"
  shows "\<exists>x \<in> set (dedup_edges es). edge_key x = edge_key a"
proof -
  from assms have "edge_key a \<in> edge_key ` set (dedup_edges es)"
    by (auto simp: dedup_keys)
  then show ?thesis by force
qed

lemma dedup_unique_key:
  assumes "x \<in> set (dedup_edges es)" "y \<in> set (dedup_edges es)" "edge_key x = edge_key y"
  shows "x = y"
  using assms distinct_dedup_keys [of es]
  by (meson distinct_map inj_onD)

lemma stored_key:
  assumes "x \<in> set (dedup_edges es)"
  shows "edge_key x = (lower (source x), relation x, lower (target x), source_graph x)"
proof -
  from dedup_canonical [OF assms] obtain e where "x = canon e" by blast
  then show ?thesis by (simp add: edge_key_def canon_def norm_ws_idem)
qed

lemma kept_from_filter_populated: "kept_from seen (filter populated es) = kept_from seen es"
  by (induction es arbitrary: seen) auto

lemma dedup_edges_filter_populated: "dedup_edges (filter populated es) = dedup_edges es"
  by (simp add: dedup_edges_kept_from kept_from_filter_populated)

lemma dedup_edge_shape:
  assumes "x \<in> set (dedup_edges es)"
  shows "source x \<noteq> [] \<and> relation x \<noteq> [] \<and> target x \<noteq> []
         \<and> trimmed (source x) \<and> single_spaced (source x)
         \<and> trimmed (relation x) \<and> single_spaced (relation x)
         \<and> trimmed (target x) \<and> single_spaced (target x)"
proof -
  from dedup_canonical [OF assms] obtain e where e: "populated e" "x = canon e" by blast
  then show ?thesis
    by (simp add: canon_def populated_def norm_ws_trimmed norm_ws_single_spaced)
qed

lemma build_edges_dedup:
  "build_fusion_graph ev cfg rows = Inr g \<Longrightarrow> \<exists>fe. edges g = dedup_edges fe"
  by (auto simp: build_fusion_graph_def split: sum.splits)

subsection \<open>The Term-Definition adapter\<close>

lemma coerce_fallback:
  "parse_fails ev text \<Longrightarrow>
   coerce_single_triple ev text keyword
     = \<lparr>source = norm_ws keyword, relation = ''IsA'', target = []\<rparr>"
  by (auto simp: parse_fails_def coerce_single_triple_def split: option.splits)

text \<open>When the model call answers, whatever the text, the adapter returns a list of
  exactly one triple, with the relation \<open>IsA\<close> and the keyword as given for source, and
  the placeholder with the empty target when no parse succeeds.\<close>

lemma one_definition_when_answered:
  assumes "chat_define ev keyword = Inr text"
  shows "\<exists>t. build_term_definition_triples ev keyword = Inr [t]
             \<and> relation t = ''IsA'' \<and> source t = keyword
             \<and> target t = target (coerce_single_triple ev text keyword)
             \<and> (parse_fails ev text \<longrightarrow>
                  t = \<lparr>source = keyword, relation = ''IsA'', target = []\<rparr>)"
  using assms
  by (simp add: build_term_definition_triples_def coerce_fallback)

subsection \<open>The frontier\<close>

lemma frontier_step_eq:
  "frontier_step cur (out, seen) x =
     (if norm_ws x = [] \<or> lower (norm_ws x) \<in> cur \<or> lower (norm_ws x) \<in> seen
      then (out, seen)
      else (out @ [norm_ws x], insert (lower (norm_ws x)) seen))"
  by (simp add: frontier_step_def Let_def)

lemma foldl_frontier_step:
  "\<exists>seen'. foldl (frontier_step cur) (out, seen) xs = (out @ frontier_from cur seen xs, seen')"
proof (induction xs arbitrary: out seen)
  case Nil
  show ?case by simp
next
  case (Cons x xs)
  show ?case
  proof (cases "norm_ws x = [] \<or> lower (norm_ws x) \<in> cur \<or> lower (norm_ws x) \<in> seen")
    case True
    then have "frontier_step cur (out, seen) x = (out, seen)"
      by (simp only: frontier_step_eq if_True)
    with True Cons.IH [of out seen] show ?thesis by auto
  next
    case False
    then have "frontier_step cur (out, seen) x
        = (out @ [norm_ws x], insert (lower (norm_ws x)) seen)"
      by (simp only: frontier_step_eq if_False)
    with False Cons.IH [of "out @ [norm_ws x]" "insert (lower (norm_ws x)) seen"]
    show ?thesis by auto
  qed
qed

lemma next_frontier_eq:
  "next_frontier agent_list next_queue
     = frontier_from (set (map lower agent_list)) {} next_queue"
  using foldl_frontier_step [of "set (map lower agent_list)" "[]" "{}" next_queue]
  by (auto simp: next_frontier_def)

lemma frontier_from_sound:
  "x \<in> set (frontier_from cur seen xs) \<Longrightarrow>
   x \<noteq> [] \<and> lower x \<notin> cur \<and> lower x \<notin> seen \<and> (\<exists>y \<in> set xs. x = norm_ws y)"
  by (induction xs arbitrary: seen) (auto split: if_splits)

lemma frontier_from_distinct: "distinct (map lower (frontier_from cur seen xs))"
proof (induction xs arbitrary: seen)
  case Nil
  show ?case by simp
next
  case (Cons x xs)
  have "lower (norm_ws x) \<notin> lower ` set (frontier_from cur (insert (lower (norm_ws x)) seen) xs)"
  proof
    assume "lower (norm_ws x) \<in> lower ` set (frontier_from cur (insert (lower (norm_ws x)) seen) xs)"
    then obtain z where z: "z \<in> set (frontier_from cur (insert (lower (norm_ws x)) seen) xs)"
      "lower (norm_ws x) = lower z" by blast
    from frontier_from_sound [OF z(1)] have "lower z \<notin> insert (lower (norm_ws x)) seen"
      by blast
    with z(2) show False by simp
  qed
  with Cons.IH show ?case by simp
qed

subsection \<open>The loop over the agents\<close>

lemma expand_loop_Inr:
  "expand_loop ev cfg ags acc nq = Inr (es, q) \<Longrightarrow>
   \<exists>rs. map (expand_agent ev cfg) ags = map Inr rs
        \<and> es = acc @ concat (map fst rs) \<and> q = nq @ concat (map snd rs)"
proof (induction ags arbitrary: acc nq)
  case Nil
  then show ?case by simp
next
  case (Cons a ags)
  from Cons.prems obtain new_es new_q where
    a: "expand_agent ev cfg a = Inr (new_es, new_q)"
    and rest: "expand_loop ev cfg ags (acc @ new_es) (nq @ new_q) = Inr (es, q)"
    by (auto split: sum.splits)
  from Cons.IH [OF rest] obtain rs where
    rs: "map (expand_agent ev cfg) ags = map Inr rs"
        "es = (acc @ new_es) @ concat (map fst rs)" "q = (nq @ new_q) @ concat (map snd rs)"
    by blast
  show ?case
  proof (intro exI conjI)
    show "map (expand_agent ev cfg) (a # ags) = map Inr ((new_es, new_q) # rs)"
      using a rs(1) by simp
    show "es = acc @ concat (map fst ((new_es, new_q) # rs))" using rs(2) by simp
    show "q = nq @ concat (map snd ((new_es, new_q) # rs))" using rs(3) by simp
  qed
qed

lemma expand_loop_agent:
  assumes "expand_loop ev cfg ags acc nq = Inr (es, q)" "a \<in> set ags"
  shows "\<exists>new_es new_q. expand_agent ev cfg a = Inr (new_es, new_q)
           \<and> set new_es \<subseteq> set es \<and> set new_q \<subseteq> set q"
proof -
  from expand_loop_Inr [OF assms(1)] obtain rs where
    rs: "map (expand_agent ev cfg) ags = map Inr rs"
        "es = acc @ concat (map fst rs)" "q = nq @ concat (map snd rs)"
    by blast
  from assms(2) have "expand_agent ev cfg a \<in> set (map (expand_agent ev cfg) ags)" by simp
  with rs(1) obtain r where r: "r \<in> set rs" "expand_agent ev cfg a = Inr r" by auto
  from r(1) rs(2,3) have "set (fst r) \<subseteq> set es" "set (snd r) \<subseteq> set q" by auto
  with r(2) show ?thesis by (cases r) auto
qed

lemma expand_loop_queue:
  assumes "expand_loop ev cfg ags acc nq = Inr (es, q)" "y \<in> set q"
  shows "y \<in> set nq \<or> (\<exists>a \<in> set ags. \<exists>new_es new_q.
           expand_agent ev cfg a = Inr (new_es, new_q) \<and> y \<in> set new_q)"
proof -
  from expand_loop_Inr [OF assms(1)] obtain rs where
    rs: "map (expand_agent ev cfg) ags = map Inr rs" "q = nq @ concat (map snd rs)"
    by blast
  show ?thesis
  proof (cases "y \<in> set nq")
    case True
    then show ?thesis by simp
  next
    case False
    with assms(2) rs(2) obtain r where r: "r \<in> set rs" "y \<in> set (snd r)" by auto
    from r(1) have "Inr r \<in> set (map (expand_agent ev cfg) ags)"
      unfolding rs(1) by simp
    then obtain a where "a \<in> set ags" "expand_agent ev cfg a = Inr r" by auto
    with r(2) show ?thesis by (cases r) force
  qed
qed

lemma expand_loop_edges:
  assumes "expand_loop ev cfg ags acc nq = Inr (es, q)" "x \<in> set es"
  shows "x \<in> set acc \<or> (\<exists>a \<in> set ags. \<exists>new_es new_q.
           expand_agent ev cfg a = Inr (new_es, new_q) \<and> x \<in> set new_es)"
proof -
  from expand_loop_Inr [OF assms(1)] obtain rs where
    rs: "map (expand_agent ev cfg) ags = map Inr rs" "es = acc @ concat (map fst rs)"
    by blast
  show ?thesis
  proof (cases "x \<in> set acc")
    case True
    then show ?thesis by simp
  next
    case False
    with assms(2) rs(2) obtain r where r: "r \<in> set rs" "x \<in> set (fst r)" by auto
    from r(1) have "Inr r \<in> set (map (expand_agent ev cfg) ags)"
      unfolding rs(1) by simp
    then obtain a where "a \<in> set ags" "expand_agent ev cfg a = Inr r" by auto
    with r(2) show ?thesis by (cases r) force
  qed
qed

lemma expand_agent_queue:
  assumes "expand_agent ev cfg a = Inr (new_es, new_q)" "y \<in> set new_q"
  shows "\<exists>t. fetched ev cfg a t \<and> y = target t"
  using assms
  by (auto simp: expand_agent_def fetched_def split: sum.splits if_splits)

subsection \<open>The Relevance Filter\<close>

lemma cand_map_eq:
  "cand_map cands k =
     (if filter (\<lambda>c. lower c = k) cands = [] then None
      else Some (last (filter (\<lambda>c. lower c = k) cands)))"
  unfolding cand_map_def
  by (induction cands rule: rev_induct) auto

lemma cand_map_Some: "cand_map cands k = Some c \<Longrightarrow> c \<in> set cands \<and> lower c = k"
proof -
  assume h: "cand_map cands k = Some c"
  then have ne: "filter (\<lambda>c. lower c = k) cands \<noteq> []"
    and c: "c = last (filter (\<lambda>c. lower c = k) cands)"
    by (auto simp: cand_map_eq split: if_splits)
  from last_in_set [OF ne] c have "c \<in> set (filter (\<lambda>c. lower c = k) cands)" by simp
  then show ?thesis by simp
qed

lemma pick_step_eq:
  "pick_step cmap (out, seen) k =
     (case cmap k of
        Some c \<Rightarrow> if k \<notin> seen then (out @ [c], insert k seen) else (out, seen)
      | None \<Rightarrow> (out, seen))"
  by (simp add: pick_step_def split: option.splits)

lemma foldl_pick_step:
  "\<exists>seen'. foldl (pick_step cmap) (out, seen) ks = (out @ picked_from cmap seen ks, seen')"
proof (induction ks arbitrary: out seen)
  case Nil
  show ?case by simp
next
  case (Cons k ks)
  show ?case
  proof (cases "cmap k")
    case None
    then have "pick_step cmap (out, seen) k = (out, seen)" by (simp add: pick_step_eq)
    with None Cons.IH [of out seen] show ?thesis by auto
  next
    case (Some c)
    show ?thesis
    proof (cases "k \<in> seen")
      case True
      with Some have "pick_step cmap (out, seen) k = (out, seen)" by (simp add: pick_step_eq)
      with Some True Cons.IH [of out seen] show ?thesis by auto
    next
      case False
      with Some have "pick_step cmap (out, seen) k = (out @ [c], insert k seen)"
        by (simp add: pick_step_eq)
      with Some False Cons.IH [of "out @ [c]" "insert k seen"] show ?thesis by auto
    qed
  qed
qed

lemma pick_from_keep_eq:
  "pick_from_keep ev cands keep = picked_from (cand_map cands) {} (keep_keys ev keep)"
  using foldl_pick_step [of "cand_map cands" "[]" "{}" "keep_keys ev keep"]
  by (auto simp: pick_from_keep_def)

lemma picked_from_sound:
  "c \<in> set (picked_from (cand_map cands) seen ks) \<Longrightarrow>
   c \<in> set cands \<and> lower c \<in> set ks \<and> lower c \<notin> seen"
proof (induction ks arbitrary: seen)
  case Nil
  then show ?case by simp
next
  case (Cons k ks)
  show ?case
  proof (cases "cand_map cands k")
    case None
    with Cons show ?thesis by auto
  next
    case (Some d)
    note d = cand_map_Some [OF Some]
    show ?thesis
    proof (cases "k \<in> seen")
      case True
      with Some Cons show ?thesis by auto
    next
      case False
      with Some Cons.prems have "c = d \<or> c \<in> set (picked_from (cand_map cands) (insert k seen) ks)"
        by auto
      then show ?thesis
      proof
        assume "c = d"
        with d False show ?thesis by auto
      next
        assume "c \<in> set (picked_from (cand_map cands) (insert k seen) ks)"
        from Cons.IH [OF this] show ?thesis by auto
      qed
    qed
  qed
qed

lemma picked_from_subseq:
  "subseq (map lower (picked_from (cand_map cands) seen ks)) ks"
proof (induction ks arbitrary: seen)
  case Nil
  show ?case by simp
next
  case (Cons k ks)
  show ?case
  proof (cases "cand_map cands k")
    case None
    with Cons.IH [of seen] show ?thesis by (auto intro: list_emb_Cons)
  next
    case (Some d)
    note d = cand_map_Some [OF Some]
    show ?thesis
    proof (cases "k \<in> seen")
      case True
      with Some Cons.IH [of seen] show ?thesis by (auto intro: list_emb_Cons)
    next
      case False
      with Some d Cons.IH [of "insert k seen"] show ?thesis by simp
    qed
  qed
qed

lemma picked_from_distinct:
  "distinct (map lower (picked_from (cand_map cands) seen ks))"
proof (induction ks arbitrary: seen)
  case Nil
  show ?case by simp
next
  case (Cons k ks)
  show ?case
  proof (cases "cand_map cands k")
    case None
    with Cons.IH [of seen] show ?thesis by simp
  next
    case (Some d)
    note d = cand_map_Some [OF Some]
    show ?thesis
    proof (cases "k \<in> seen")
      case True
      with Some Cons.IH [of seen] show ?thesis by simp
    next
      case False
      have "k \<notin> lower ` set (picked_from (cand_map cands) (insert k seen) ks)"
      proof
        assume "k \<in> lower ` set (picked_from (cand_map cands) (insert k seen) ks)"
        then obtain z where z: "z \<in> set (picked_from (cand_map cands) (insert k seen) ks)"
          "k = lower z" by blast
        from picked_from_sound [OF z(1)] z(2) show False by simp
      qed
      with Some False d Cons.IH [of "insert k seen"] show ?thesis by simp
    qed
  qed
qed

lemma firsts_from_first_mentions:
  "firsts_from seen ks = first_mentions (filter (\<lambda>k. k \<notin> seen) ks)"
proof (induction ks arbitrary: seen)
  case Nil
  show ?case by simp
next
  case (Cons k ks)
  show ?case
  proof (cases "k \<in> seen")
    case True
    with Cons.IH [of seen] show ?thesis by simp
  next
    case False
    have "removeAll k (filter (\<lambda>k. k \<notin> seen) ks) = filter (\<lambda>x. x \<notin> insert k seen) ks"
      by (induction ks) auto
    with False Cons.IH [of "insert k seen"] show ?thesis by simp
  qed
qed

lemma cand_map_named:
  "cand_map cands k =
     (if k \<in> set (map lower cands) then Some (named_candidate cands k) else None)"
proof -
  have "filter (\<lambda>c. lower c = k) cands = [] \<longleftrightarrow> k \<notin> set (map lower cands)"
    by (auto simp: filter_empty_conv)
  then show ?thesis by (simp add: cand_map_eq named_candidate_def)
qed

lemma lower_named_candidate:
  assumes "k \<in> set (map lower cands)"
  shows "lower (named_candidate cands k) = k" "named_candidate cands k \<in> set cands"
proof -
  from assms have "cand_map cands k = Some (named_candidate cands k)"
    by (simp add: cand_map_named)
  from cand_map_Some [OF this]
  show "lower (named_candidate cands k) = k" "named_candidate cands k \<in> set cands"
    by simp_all
qed

lemma picked_from_firsts:
  "picked_from (cand_map cands) seen ks
     = map (named_candidate cands)
         (firsts_from seen (filter (\<lambda>k. k \<in> set (map lower cands)) ks))"
proof (induction ks arbitrary: seen)
  case Nil
  show ?case by simp
next
  case (Cons k ks)
  show ?case
  proof (cases "k \<in> set (map lower cands)")
    case False
    then have "cand_map cands k = None" by (simp add: cand_map_named)
    with False Cons.IH [of seen] show ?thesis by simp
  next
    case True
    then have c: "cand_map cands k = Some (named_candidate cands k)"
      by (simp add: cand_map_named)
    show ?thesis
    proof (cases "k \<in> seen")
      case True
      with c \<open>k \<in> set (map lower cands)\<close> Cons.IH [of seen] show ?thesis by simp
    next
      case False
      with c \<open>k \<in> set (map lower cands)\<close> Cons.IH [of "insert k seen"] show ?thesis by simp
    qed
  qed
qed

lemma pick_from_keep_exact:
  "pick_from_keep ev cands keep
     = map (named_candidate cands)
         (first_mentions (filter (\<lambda>k. k \<in> set (map lower cands)) (keep_keys ev keep)))"
  by (simp add: pick_from_keep_eq picked_from_firsts firsts_from_first_mentions)

lemma set_first_mentions: "set (first_mentions xs) = set xs"
  by (induction xs rule: first_mentions.induct) auto

lemma lower_pick_from_keep:
  "map lower (pick_from_keep ev cands keep)
     = first_mentions (filter (\<lambda>k. k \<in> set (map lower cands)) (keep_keys ev keep))"
proof -
  define ks where "ks = first_mentions (filter (\<lambda>k. k \<in> set (map lower cands)) (keep_keys ev keep))"
  have "\<forall>k \<in> set ks. k \<in> set (map lower cands)"
    unfolding ks_def set_first_mentions by simp
  then have "map (\<lambda>k. lower (named_candidate cands k)) ks = ks"
    using lower_named_candidate(1) [of _ cands] by (induction ks) auto
  then show ?thesis
    unfolding pick_from_keep_exact ks_def [symmetric] by (simp add: o_def)
qed

lemma pick_hard_agents_Inr:
  assumes "pick_hard_agents_via_gpt ev cands = Inr out"
  shows "\<exists>keep. out = pick_from_keep ev cands keep"
proof (cases "cands = []")
  case True
  with assms have "out = []" by (simp add: pick_hard_agents_via_gpt_def)
  then have "out = pick_from_keep ev cands []"
    by (simp add: pick_from_keep_def keep_keys_def)
  then show ?thesis ..
next
  case False
  with assms show ?thesis
    by (auto simp: pick_hard_agents_via_gpt_def split: sum.splits)
qed

lemma pick_hard_agents_subset:
  assumes "pick_hard_agents_via_gpt ev cands = Inr out"
  shows "set out \<subseteq> set cands"
proof -
  from pick_hard_agents_Inr [OF assms] obtain keep where "out = pick_from_keep ev cands keep" ..
  then show ?thesis
    using picked_from_sound [of _ cands "{}" "keep_keys ev keep"]
    by (auto simp: pick_from_keep_eq)
qed

lemma expand_once_Inr:
  assumes "expand_once ev cfg agent_list = Inr (es, frontier)"
  shows "\<exists>picked raw nq.
           pick_hard_agents_via_gpt ev agent_list = Inr picked
           \<and> expand_loop ev cfg (if picked = [] then agent_list else picked) [] [] = Inr (raw, nq)
           \<and> es = dedup_edges raw \<and> frontier = next_frontier agent_list nq"
proof (cases "pick_hard_agents_via_gpt ev agent_list")
  case (Inl err)
  with assms show ?thesis by (simp add: expand_once_def)
next
  case pick: (Inr picked)
  show ?thesis
  proof (cases "expand_loop ev cfg (if picked = [] then agent_list else picked) [] []")
    case (Inl err)
    with pick assms show ?thesis by (simp add: expand_once_def Let_def)
  next
    case (Inr r)
    obtain raw nq where r: "r = (raw, nq)" by (cases r)
    from assms pick Inr r have "es = dedup_edges raw" "frontier = next_frontier agent_list nq"
      by (simp_all add: expand_once_def Let_def)
    with pick Inr r show ?thesis by blast
  qed
qed

lemma hard_agents_subset:
  assumes "pick_hard_agents_via_gpt ev agent_list = Inr picked"
  shows "set (if picked = [] then agent_list else picked) \<subseteq> set agent_list"
  using pick_hard_agents_subset [OF assms] by auto

subsection \<open>Rounds\<close>

lemma rounds_loop_collected:
  "rounds_loop ev cfg n fe q = Inr fe' \<Longrightarrow> fe' = fe @ collected ev cfg n q"
proof (induction n arbitrary: fe q)
  case 0
  then show ?case by simp
next
  case (Suc n)
  show ?case
  proof (cases "q = []")
    case True
    with Suc.prems show ?thesis by simp
  next
    case False
    with Suc.prems obtain step new_queue where
      st: "expand_once ev cfg q = Inr (step, new_queue)"
      and rest: "rounds_loop ev cfg n (fe @ step) new_queue = Inr fe'"
      by (auto split: sum.splits)
    from Suc.IH [OF rest] st False show ?thesis by simp
  qed
qed

lemma populated_dedup: "x \<in> set (dedup_edges es) \<Longrightarrow> populated x"
  using dedup_canonical [of x es] by (auto simp: populated_canon)

lemma expand_once_populated:
  assumes "expand_once ev cfg q = Inr (step, new_queue)" "x \<in> set step"
  shows "populated x"
proof -
  from expand_once_Inr [OF assms(1)] obtain raw where "step = dedup_edges raw" by blast
  with assms(2) show ?thesis by (simp add: populated_dedup)
qed

lemma collected_populated: "x \<in> set (collected ev cfg n q) \<Longrightarrow> populated x"
proof (induction n arbitrary: q)
  case 0
  then show ?case by simp
next
  case (Suc n)
  show ?case
  proof (cases "q = []")
    case True
    with Suc.prems show ?thesis by simp
  next
    case False
    show ?thesis
    proof (cases "expand_once ev cfg q")
      case (Inl err)
      with False Suc.prems show ?thesis by simp
    next
      case (Inr r)
      obtain step new_queue where r: "r = (step, new_queue)" by (cases r)
      with Inr False Suc.prems
      have "x \<in> set step \<or> x \<in> set (collected ev cfg n new_queue)" by simp
      then show ?thesis
      proof
        assume "x \<in> set step"
        with expand_once_populated [of ev cfg q step new_queue] Inr r show ?thesis by simp
      next
        assume "x \<in> set (collected ev cfg n new_queue)"
        then show ?thesis by (rule Suc.IH)
      qed
    qed
  qed
qed

lemma dedup_edges_append:
  "dedup_edges (xs @ ys)
     = dedup_edges xs @ kept_from (edge_key ` {e \<in> set xs. populated e}) ys"
  by (simp add: dedup_edges_kept_from kept_from_append)

lemma build_fusion_graph_Inr:
  assumes "build_fusion_graph ev cfg rows = Inr g"
  shows "edges g = dedup_edges (eventic_to_triples rows
           @ collected ev cfg (nat (max 0 (rounds cfg))) (extract_agents_from_eventic rows))"
proof -
  from assms obtain fe where
    fe: "rounds_loop ev cfg (nat (max 0 (rounds cfg))) (eventic_to_triples rows)
           (extract_agents_from_eventic rows) = Inr fe"
    and g: "g = \<lparr>edges = dedup_edges fe\<rparr>"
    by (auto simp: build_fusion_graph_def split: sum.splits)
  from rounds_loop_collected [OF fe] g show ?thesis by simp
qed

subsection \<open>Term-Definition edges in a round\<close>

lemma expand_agent_tags:
  assumes "expand_agent ev cfg a = Inr (new_es, new_q)" "x \<in> set new_es"
  shows "source_graph x = ''concept'' \<or> source_graph x = ''entity''
         \<or> (include_tdg_edges cfg \<and> source_graph x = ''term_definition'')"
  using assms
  by (auto simp: expand_agent_def tag_edge_def split: sum.splits if_splits)

lemma expand_agent_tdg:
  assumes "expand_agent ev cfg a = Inr (new_es, new_q)"
    "use_term_definition_graph cfg" "include_tdg_edges cfg"
    "build_term_definition_triples ev a = Inr [t]"
  shows "tag_edge ''term_definition'' t \<in> set new_es"
  using assms
  by (auto simp: expand_agent_def split: sum.splits if_splits)

lemma source_graph_canon: "source_graph (canon e) = source_graph e"
  by (simp add: canon_def)

subsection \<open>The Concept adapter\<close>

lemma cn_step_eq:
  "cn_step relations min_weight (out, seen) e =
     (if cn_accepts relations min_weight e \<and> triple_key (cn_triple e) \<notin> seen
      then (out @ [cn_triple e], insert (triple_key (cn_triple e)) seen)
      else (out, seen))"
  by (auto simp: cn_step_def cn_accepts_def cn_triple_def triple_key_def Let_def
           split: option.splits)

lemma foldl_cn_step:
  "\<exists>seen'. foldl (cn_step relations min_weight) (out, seen) es
             = (out @ cn_kept relations min_weight seen es, seen')"
proof (induction es arbitrary: out seen)
  case Nil
  show ?case by simp
next
  case (Cons e es)
  show ?case
  proof (cases "cn_accepts relations min_weight e \<and> triple_key (cn_triple e) \<notin> seen")
    case True
    then have "cn_step relations min_weight (out, seen) e
        = (out @ [cn_triple e], insert (triple_key (cn_triple e)) seen)"
      by (simp add: cn_step_eq)
    with True Cons.IH [of "out @ [cn_triple e]" "insert (triple_key (cn_triple e)) seen"]
    show ?thesis by auto
  next
    case False
    then have "cn_step relations min_weight (out, seen) e = (out, seen)"
      by (simp add: cn_step_eq)
    with False Cons.IH [of out seen] show ?thesis by auto
  qed
qed

lemma cn_collect_eq:
  "fst (foldl (cn_step relations min_weight) ([], {}) body)
     = cn_kept relations min_weight {} body"
  using foldl_cn_step [of relations min_weight "[]" "{}" body] by auto

lemma cn_kept_sound:
  "t \<in> set (cn_kept relations min_weight seen es) \<Longrightarrow>
   triple_key t \<notin> seen \<and> (\<exists>e \<in> set es. cn_accepts relations min_weight e \<and> t = cn_triple e)"
  by (induction es arbitrary: seen) (auto split: if_splits)

lemma cn_kept_distinct: "distinct (map triple_key (cn_kept relations min_weight seen es))"
proof (induction es arbitrary: seen)
  case Nil
  show ?case by simp
next
  case (Cons e es)
  have "triple_key (cn_triple e)
          \<notin> triple_key ` set (cn_kept relations min_weight (insert (triple_key (cn_triple e)) seen) es)"
  proof
    assume "triple_key (cn_triple e)
          \<in> triple_key ` set (cn_kept relations min_weight (insert (triple_key (cn_triple e)) seen) es)"
    then obtain t where t: "t \<in> set (cn_kept relations min_weight (insert (triple_key (cn_triple e)) seen) es)"
      "triple_key (cn_triple e) = triple_key t" by blast
    from cn_kept_sound [OF t(1)] t(2) show False by simp
  qed
  with Cons.IH show ?case by simp
qed

lemma cn_kept_complete:
  "e \<in> set es \<Longrightarrow> cn_accepts relations min_weight e \<Longrightarrow>
   triple_key (cn_triple e) \<in> seen \<union> triple_key ` set (cn_kept relations min_weight seen es)"
proof (induction es arbitrary: seen)
  case Nil
  then show ?case by simp
next
  case (Cons x xs)
  show ?case
  proof (cases "e = x")
    case True
    with Cons.prems show ?thesis by auto
  next
    case False
    with Cons.prems have e: "e \<in> set xs" by simp
    show ?thesis
    proof (cases "cn_accepts relations min_weight x \<and> triple_key (cn_triple x) \<notin> seen")
      case True
      with Cons.IH [OF e Cons.prems(2), of "insert (triple_key (cn_triple x)) seen"]
      show ?thesis by auto
    next
      case False
      with Cons.IH [OF e Cons.prems(2), of seen] show ?thesis by auto
    qed
  qed
qed

lemma py_take_is_take: "\<exists>n. py_take m xs = take n xs"
  by (auto simp: py_take_def)

lemma cn_ranked_None:
  "cn_ranked body relations min_weight None
     = sort_key (\<lambda>x. - weight x) (cn_kept relations min_weight {} body)"
  by (simp add: cn_ranked_def cn_collect_eq)

lemma cn_ranked_Some:
  "cn_ranked body relations min_weight (Some m)
     = py_take m (cn_ranked body relations min_weight None)"
  by (simp add: cn_ranked_def)

lemma cn_ranked_prefix:
  "\<exists>n. cn_ranked body relations min_weight max_num
         = take n (cn_ranked body relations min_weight None)"
proof (cases max_num)
  case None
  have "cn_ranked body relations min_weight None
          = take (length (cn_ranked body relations min_weight None))
              (cn_ranked body relations min_weight None)"
    by simp
  with None show ?thesis by blast
next
  case (Some m)
  with py_take_is_take [of m "cn_ranked body relations min_weight None"]
  show ?thesis by (simp add: cn_ranked_Some)
qed

lemma cn_ranked_None_sorted:
  "sorted_wrt (\<lambda>a b. weight b \<le> weight a) (cn_ranked body relations min_weight None)"
proof -
  have "sorted (map (\<lambda>x. - weight x) (cn_ranked body relations min_weight None))"
    by (simp add: cn_ranked_None)
  then show ?thesis by (simp add: sorted_map)
qed

lemma cn_ranked_None_distinct:
  "distinct (map triple_key (cn_ranked body relations min_weight None))"
  using cn_kept_distinct [of relations min_weight "{}" body]
  by (simp add: cn_ranked_None distinct_map)

lemma triple_key_pop_weight: "triple_key (pop_weight t) = triple_key t"
  by (simp add: triple_key_def pop_weight_def)

lemma cn_ranked_sound:
  assumes "t \<in> set (cn_ranked body relations min_weight max_num)"
  shows "min_weight \<le> weight t
         \<and> (\<exists>e \<in> set body. cn_accepts relations min_weight e \<and> t = cn_triple e)"
proof -
  from cn_ranked_prefix [of body relations min_weight max_num] assms
  have "t \<in> set (cn_ranked body relations min_weight None)"
    by (auto dest: in_set_takeD)
  then have "t \<in> set (cn_kept relations min_weight {} body)"
    by (simp add: cn_ranked_None)
  from cn_kept_sound [OF this] obtain e where
    e: "e \<in> set body" "cn_accepts relations min_weight e" "t = cn_triple e" by blast
  from e(2,3) have "min_weight \<le> weight t"
    by (simp add: cn_accepts_def cn_triple_def)
  with e show ?thesis by blast
qed

lemma cn_ranked_distinct:
  "distinct (map triple_key (cn_ranked body relations min_weight max_num))"
proof -
  from cn_ranked_prefix [of body relations min_weight max_num] obtain n where
    "cn_ranked body relations min_weight max_num
       = take n (cn_ranked body relations min_weight None)" ..
  then show ?thesis
    using cn_ranked_None_distinct [of body relations min_weight]
    by (simp add: take_map [symmetric] distinct_take)
qed

lemma cn_ranked_sorted:
  "sorted_wrt (\<lambda>a b. weight b \<le> weight a) (cn_ranked body relations min_weight max_num)"
proof -
  from cn_ranked_prefix [of body relations min_weight max_num] obtain n where
    "cn_ranked body relations min_weight max_num
       = take n (cn_ranked body relations min_weight None)" ..
  then show ?thesis
    using cn_ranked_None_sorted [of body relations min_weight]
    by (simp add: sorted_wrt_take)
qed

lemma cn_ranked_complete:
  assumes "e \<in> set body" "cn_accepts relations min_weight e"
  shows "triple_key (cn_triple e) \<in> triple_key ` set (cn_ranked body relations min_weight None)"
  using cn_kept_complete [OF assms, of "{}"] by (simp add: cn_ranked_None)


subsection \<open>Seed edges\<close>

lemma canon_canon: "canon (canon e) = canon e"
  by (simp add: canon_def norm_ws_idem)

lemma kept_from_map_canon: "kept_from seen (map canon es) = kept_from seen es"
  by (induction es arbitrary: seen) (simp_all add: populated_canon edge_key_canon canon_canon)

lemma dedup_edges_map_canon: "dedup_edges (map canon es) = dedup_edges es"
  by (simp add: dedup_edges_kept_from kept_from_map_canon)

lemma get_or_event_record:
  "get_or (event_record (agent, deon, act)) [''Agent'', ''agent'', ''Agent1'', ''agent1''] = agent"
  "get_or (event_record (agent, deon, act)) [''Deontic'', ''deontic''] = deon"
  "get_or (event_record (agent, deon, act)) [''Action'', ''action''] = act"
  by (simp_all add: event_record_def)

lemma eventic_to_triples_record:
  "eventic_to_triples (event_record (agent, deon, act) # rows) =
     (if agent \<noteq> [] \<and> deon \<noteq> [] \<and> act \<noteq> []
      then \<lparr>source = norm_ws agent, relation = norm_ws deon, target = norm_ws act,
            source_graph = ''eventic''\<rparr> # eventic_to_triples rows
      else eventic_to_triples rows)"
  by (simp add: get_or_event_record Let_def del: get_or.simps)

lemma eventic_to_triples_records:
  "eventic_to_triples (map event_record rs) = map canon (seed_spec rs)"
proof (induction rs)
  case Nil
  show ?case by (simp add: seed_spec_def)
next
  case (Cons r rs)
  obtain agent deon act where r: "r = (agent, deon, act)" by (cases r)
  have step: "seed_spec (r # rs) =
     (if agent \<noteq> [] \<and> deon \<noteq> [] \<and> act \<noteq> []
      then \<lparr>source = agent, relation = deon, target = act, source_graph = ''eventic''\<rparr>
             # seed_spec rs
      else seed_spec rs)"
    by (simp add: r seed_spec_def)
  show ?case
    unfolding list.map r eventic_to_triples_record step [unfolded r] Cons.IH
    by (simp add: canon_def)
qed

lemma build_zero:
  "build_fusion_graph ev (cfg\<lparr>rounds := 0\<rparr>) rows
     = Inr \<lparr>edges = dedup_edges (eventic_to_triples rows)\<rparr>"
  by (simp add: build_fusion_graph_def)


section \<open>The example runs, evaluated\<close>

lemma ex_vals:
  "populated ex_a" "populated ex_b" "populated ex_c" "populated ex_d"
  "source_graph ex_a \<noteq> source_graph ex_c"
  "edge_key ex_a = edge_key ex_b"
  "dedup_edges [ex_a, ex_b, ex_c, ex_d, ex_e] = [canon ex_a, canon ex_c, ex_d]"
  by code_simp+

lemma ex_run: "build_fusion_graph ex_env ex_cfg ex_rows = Inr ex_graph"
  by code_simp

lemma ex_round: "expand_once ex_env ex_cfg [''Controller''] = Inr (ex_step, ex_frontier)"
  by code_simp

lemma ex_collected:
  "collected ex_env ex_cfg (nat (max 0 (rounds ex_cfg))) (extract_agents_from_eventic ex_rows)
     = ex_step"
  by code_simp

lemma ex_pick: "pick_hard_agents_via_gpt ex_env [''Controller''] = Inr [''Controller'']"
  by code_simp

lemma ex_pick_def: "pick_hard_agents_via_gpt ex_env_def [''Controller''] = Inr [''Controller'']"
  by code_simp

lemma ex_round_def: "expand_once ex_env_def ex_cfg [''Controller''] = Inr (ex_step_def, ex_frontier)"
  by code_simp

lemma ex_round_hide: "expand_once ex_env_def ex_cfg_hide [''Controller''] = Inr (ex_step, ex_frontier)"
  by code_simp

lemma ex_cn_get: "conceptnet_get ex_env (norm_term ex_env ''Controller'') = Body ex_body"
  by code_simp


lemma ex_seed_dedup:
  "dedup_edges (seed_spec ex_events)
     = [\<lparr>source = ''Controller'', relation = ''must'', target = ''delete personal data'',
         source_graph = ''eventic''\<rparr>,
        \<lparr>source = ''Processor'', relation = ''must_not'', target = ''transfer data'',
         source_graph = ''eventic''\<rparr>]"
  by code_simp


section \<open>The claims\<close>

subsection \<open>C1\<close>

text \<open>
  Claim C1 says that no model-call failure leaves the Expansion Round and that with every
  external source unavailable \<open>build_fusion_graph\<close> returns the seed edges. The Concept
  adapter does turn its failed request into an empty list, but the two model calls are not
  guarded: with one seed event and one round, the filter's failing call leaves
  \<open>_expand_once\<close> and \<open>build_fusion_graph\<close> as the exception, and when only the
  filter answers, the failing call of the Term-Definition adapter does the same.
\<close>

theorem C1_model_call_failure_raises:
  "extract_agents_from_eventic ex_rows = [''Controller'']
   \<and> fetch_conceptnet_triples env_down ''Controller'' None 4 (Some 3) = Inr []
   \<and> expand_once env_down ex_cfg [''Controller''] = Inl APIError
   \<and> build_fusion_graph env_down ex_cfg ex_rows = Inl APIError
   \<and> build_term_definition_triples env_filter_up ''Controller'' = Inl APIError
   \<and> build_fusion_graph env_filter_up ex_cfg ex_rows = Inl APIError"
  by code_simp

subsection \<open>C2\<close>

text \<open>
  Claim C2 says that with both flags set the placeholder of a failed parse, whose target is
  empty, appears in the final graph. The Deduplicator drops every edge with an empty
  target: in the run below the adapter returns the placeholder for the agent and the final
  graph does not contain it.
\<close>

theorem C2_placeholder_dropped_counterexample:
  "use_term_definition_graph ex_cfg \<and> include_tdg_edges ex_cfg
   \<and> extract_agents_from_eventic ex_rows = [''Controller'']
   \<and> pick_hard_agents_via_gpt ex_env [''Controller''] = Inr [''Controller'']
   \<and> build_term_definition_triples ex_env ''Controller'' = Inr [ex_placeholder]
   \<and> target ex_placeholder = []
   \<and> build_fusion_graph ex_env ex_cfg ex_rows = Inr ex_graph
   \<and> tag_edge ''term_definition'' ex_placeholder \<notin> set (edges ex_graph)"
  by code_simp

text \<open>
  Claim C2 as amended. In a round with the Term-Definition adapter enabled, the triple the
  adapter returns for an expanded agent has an edge with its identity key among the round's
  edges when \<open>include_tdg_edges\<close> is set and its normalised source and target are not
  empty; with the flag off the round has no \<open>term_definition\<close> edge; and whatever the
  flags, no edge of the round or of the final graph has an empty target, so the
  placeholder of a failed parse reaches the round and is dropped there.
\<close>

theorem C2_term_definition_edges:
  assumes "expand_once ev cfg agent_list = Inr (es, frontier)"
    and "pick_hard_agents_via_gpt ev agent_list = Inr picked"
    and "a \<in> set (if picked = [] then agent_list else picked)"
    and "use_term_definition_graph cfg"
    and "build_term_definition_triples ev a = Inr [t]"
  shows "(include_tdg_edges cfg \<and> populated (tag_edge ''term_definition'' t) \<longrightarrow>
            (\<exists>x \<in> set es. edge_key x = edge_key (tag_edge ''term_definition'' t)))
         \<and> (\<not> include_tdg_edges cfg \<longrightarrow>
            (\<forall>x \<in> set es. source_graph x \<noteq> ''term_definition''))
         \<and> (\<forall>x \<in> set es. target x \<noteq> [])
         \<and> (build_fusion_graph ev cfg rows = Inr g \<longrightarrow>
            (\<forall>x \<in> set (edges g). target x \<noteq> []))"
proof -
  from expand_once_Inr [OF assms(1)] assms(2) obtain raw nq where
    loop: "expand_loop ev cfg (if picked = [] then agent_list else picked) [] [] = Inr (raw, nq)"
    and es: "es = dedup_edges raw"
    by auto
  have p1: "\<exists>x \<in> set es. edge_key x = edge_key (tag_edge ''term_definition'' t)"
    if inc: "include_tdg_edges cfg" and pop: "populated (tag_edge ''term_definition'' t)"
  proof -
    from expand_loop_agent [OF loop assms(3)] obtain new_es new_q where
      a: "expand_agent ev cfg a = Inr (new_es, new_q)" "set new_es \<subseteq> set raw"
      by blast
    from expand_agent_tdg [OF a(1) assms(4) inc assms(5)] a(2)
    have "tag_edge ''term_definition'' t \<in> set raw" by blast
    from dedup_has_key [OF this pop] show ?thesis by (simp add: es)
  qed
  have p2: "source_graph x \<noteq> ''term_definition''"
    if "\<not> include_tdg_edges cfg" "x \<in> set es" for x
  proof -
    from that(2) es dedup_canonical [of x raw] obtain e where
      e: "e \<in> set raw" "x = canon e" by blast
    from expand_loop_edges [OF loop e(1)] obtain b new_es new_q where
      "expand_agent ev cfg b = Inr (new_es, new_q)" "e \<in> set new_es"
      by auto
    from expand_agent_tags [OF this] that(1)
    have "source_graph e = ''concept'' \<or> source_graph e = ''entity''" by blast
    with e(2) show ?thesis by (auto simp: source_graph_canon)
  qed
  have p3: "target x \<noteq> []" if "x \<in> set es" for x
    using that dedup_edge_shape [of x raw] by (simp add: es)
  have p4: "target x \<noteq> []" if "build_fusion_graph ev cfg rows = Inr g" "x \<in> set (edges g)" for x
  proof -
    from build_edges_dedup [OF that(1)] obtain fe where "edges g = dedup_edges fe" ..
    with that(2) dedup_edge_shape [of x fe] show ?thesis by simp
  qed
  from p1 p2 p3 p4 show ?thesis by blast
qed

theorem C2_term_definition_edges_witness:
  "expand_once ex_env_def ex_cfg [''Controller''] = Inr (ex_step_def, ex_frontier)
   \<and> build_term_definition_triples ex_env_def ''Controller'' = Inr [ex_definition]
   \<and> include_tdg_edges ex_cfg \<and> populated (tag_edge ''term_definition'' ex_definition)
   \<and> (\<exists>x \<in> set ex_step_def. edge_key x = edge_key (tag_edge ''term_definition'' ex_definition))
   \<and> expand_once ex_env_def ex_cfg_hide [''Controller''] = Inr (ex_step, ex_frontier)
   \<and> \<not> include_tdg_edges ex_cfg_hide
   \<and> list_all (\<lambda>x. source_graph x \<noteq> ''term_definition'') ex_step
   \<and> expand_once ex_env ex_cfg [''Controller''] = Inr (ex_step, ex_frontier)
   \<and> build_term_definition_triples ex_env ''Controller'' = Inr [ex_placeholder]
   \<and> build_fusion_graph ex_env ex_cfg ex_rows = Inr ex_graph
   \<and> list_all (\<lambda>x. target x \<noteq> []) ex_step
   \<and> list_all (\<lambda>x. target x \<noteq> []) (edges ex_graph)"
proof -
  have mem: "''Controller'' \<in> set (if [''Controller''] = [] then [''Controller''] else [''Controller''])"
    by simp
  have use: "use_term_definition_graph ex_cfg" "use_term_definition_graph ex_cfg_hide"
    and inc: "include_tdg_edges ex_cfg" "\<not> include_tdg_edges ex_cfg_hide"
    and pop: "populated (tag_edge ''term_definition'' ex_definition)"
    and tdg: "build_term_definition_triples ex_env_def ''Controller'' = Inr [ex_definition]"
    and tdg0: "build_term_definition_triples ex_env ''Controller'' = Inr [ex_placeholder]"
    by code_simp+
  note i1 = C2_term_definition_edges [OF ex_round_def ex_pick_def mem use(1) tdg]
  note i2 = C2_term_definition_edges [OF ex_round_hide ex_pick_def mem use(2) tdg]
  note i3 = C2_term_definition_edges [OF ex_round ex_pick mem use(1) tdg0,
              of ex_rows ex_graph]
  have a: "\<exists>x \<in> set ex_step_def. edge_key x = edge_key (tag_edge ''term_definition'' ex_definition)"
    by (rule mp [OF conjunct1 [OF i1]], rule conjI, rule inc(1), rule pop)
  have "\<forall>x \<in> set ex_step. source_graph x \<noteq> ''term_definition''"
    by (rule mp [OF conjunct1 [OF conjunct2 [OF i2]] inc(2)])
  then have b: "list_all (\<lambda>x. source_graph x \<noteq> ''term_definition'') ex_step"
    unfolding list_all_iff .
  have "\<forall>x \<in> set ex_step. target x \<noteq> []"
    by (rule conjunct1 [OF conjunct2 [OF conjunct2 [OF i3]]])
  then have c: "list_all (\<lambda>x. target x \<noteq> []) ex_step"
    unfolding list_all_iff .
  have "\<forall>x \<in> set (edges ex_graph). target x \<noteq> []"
    by (rule mp [OF conjunct2 [OF conjunct2 [OF conjunct2 [OF i3]]] ex_run])
  then have d: "list_all (\<lambda>x. target x \<noteq> []) (edges ex_graph)"
    unfolding list_all_iff .
  show ?thesis
    by (intro conjI) (fact ex_round_def tdg inc pop a ex_round_hide b ex_round tdg0 ex_run c d)+
qed

subsection \<open>C3\<close>

text \<open>
  Claim C3 says that the key is taken on source, relation and target as they are, for
  every edge set. The loop normalises the three fields first and skips an edge with an
  empty one: two edges equal up to case with different tags and an empty target are both
  dropped, and two edges whose relations differ only by a leading blank, so that their
  keys as the claim words them differ, collapse to one.
\<close>

theorem C3_raw_key_counterexample:
  "lower (source ex_p) = lower (source ex_q) \<and> relation ex_p = relation ex_q
   \<and> lower (target ex_p) = lower (target ex_q) \<and> source_graph ex_p \<noteq> source_graph ex_q
   \<and> dedup_edges [ex_p, ex_q] = []
   \<and> raw_key ex_r \<noteq> raw_key ex_s
   \<and> dedup_edges [ex_r, ex_s] = [ex_s]"
  by code_simp

text \<open>
  Claim C3 as amended. The Deduplicator's identity key is (lowercase source, relation,
  lowercase target, source graph) of the whitespace-normalised source, relation and
  target, which are the fields it stores: the loop computes what the specification says
  (of the edges with three non-empty normalised fields, the first occurrence of every key,
  in input order, in stored form); the key of a retained edge is read off its own fields;
  two edges with non-empty normalised fields and different source-graph tags are both
  retained, whatever their other fields; and all the edges with non-empty normalised
  fields and one key, relation compared case-sensitively, collapse to exactly one retained
  edge.
\<close>

theorem C3_dedup_identity_key:
  "dedup_edges es = dedup_spec es
   \<and> (\<forall>x \<in> set (dedup_edges es).
        edge_key x = (lower (source x), relation x, lower (target x), source_graph x))
   \<and> (\<forall>a \<in> set es. \<forall>b \<in> set es.
        populated a \<and> populated b \<and> source_graph a \<noteq> source_graph b \<longrightarrow>
        (\<exists>x \<in> set (dedup_edges es). \<exists>y \<in> set (dedup_edges es).
           x \<noteq> y \<and> edge_key x = edge_key a \<and> edge_key y = edge_key b))
   \<and> (\<forall>a \<in> set es. populated a \<longrightarrow>
        (\<exists>!x. x \<in> set (dedup_edges es) \<and> edge_key x = edge_key a))"
proof (intro conjI ballI impI)
  show "dedup_edges es = dedup_spec es" by (rule dedup_edges_spec)
next
  fix x assume "x \<in> set (dedup_edges es)"
  then show "edge_key x = (lower (source x), relation x, lower (target x), source_graph x)"
    by (rule stored_key)
next
  fix a b
  assume a: "a \<in> set es" and b: "b \<in> set es"
    and h: "populated a \<and> populated b \<and> source_graph a \<noteq> source_graph b"
  from dedup_has_key [OF a] h obtain x where x: "x \<in> set (dedup_edges es)" "edge_key x = edge_key a"
    by blast
  from dedup_has_key [OF b] h obtain y where y: "y \<in> set (dedup_edges es)" "edge_key y = edge_key b"
    by blast
  from h have "edge_key a \<noteq> edge_key b" by (simp add: edge_key_def)
  with x y have "x \<noteq> y" by auto
  with x y show "\<exists>x \<in> set (dedup_edges es). \<exists>y \<in> set (dedup_edges es).
           x \<noteq> y \<and> edge_key x = edge_key a \<and> edge_key y = edge_key b"
    by blast
next
  fix a assume a: "a \<in> set es" and p: "populated a"
  from dedup_has_key [OF a p] obtain x where x: "x \<in> set (dedup_edges es)" "edge_key x = edge_key a"
    by blast
  show "\<exists>!x. x \<in> set (dedup_edges es) \<and> edge_key x = edge_key a"
  proof (rule ex1I [of _ x])
    show "x \<in> set (dedup_edges es) \<and> edge_key x = edge_key a" using x by simp
  next
    fix y assume "y \<in> set (dedup_edges es) \<and> edge_key y = edge_key a"
    with x show "y = x" using dedup_unique_key [of y es x] by simp
  qed
qed

theorem C3_dedup_identity_key_witness:
  "ex_a \<in> set [ex_a, ex_b, ex_c, ex_d, ex_e] \<and> ex_c \<in> set [ex_a, ex_b, ex_c, ex_d, ex_e]
   \<and> populated ex_a \<and> populated ex_c \<and> source_graph ex_a \<noteq> source_graph ex_c
   \<and> dedup_edges [ex_a, ex_b, ex_c, ex_d, ex_e] = dedup_spec [ex_a, ex_b, ex_c, ex_d, ex_e]
   \<and> dedup_edges [ex_a, ex_b, ex_c, ex_d, ex_e] = [canon ex_a, canon ex_c, ex_d]
   \<and> (\<exists>x \<in> set (dedup_edges [ex_a, ex_b, ex_c, ex_d, ex_e]).
       \<exists>y \<in> set (dedup_edges [ex_a, ex_b, ex_c, ex_d, ex_e]).
          x \<noteq> y \<and> edge_key x = edge_key ex_a \<and> edge_key y = edge_key ex_c)
   \<and> (\<exists>!x. x \<in> set (dedup_edges [ex_a, ex_b, ex_c, ex_d, ex_e])
             \<and> edge_key x = edge_key ex_a)"
proof -
  have mem: "ex_a \<in> set [ex_a, ex_b, ex_c, ex_d, ex_e]" "ex_c \<in> set [ex_a, ex_b, ex_c, ex_d, ex_e]"
    by simp_all
  note inst = C3_dedup_identity_key [of "[ex_a, ex_b, ex_c, ex_d, ex_e]"]
  from inst have spec: "dedup_edges [ex_a, ex_b, ex_c, ex_d, ex_e] = dedup_spec [ex_a, ex_b, ex_c, ex_d, ex_e]"
    by blast
  from inst mem ex_vals(1,3,5)
  have two: "\<exists>x \<in> set (dedup_edges [ex_a, ex_b, ex_c, ex_d, ex_e]).
       \<exists>y \<in> set (dedup_edges [ex_a, ex_b, ex_c, ex_d, ex_e]).
          x \<noteq> y \<and> edge_key x = edge_key ex_a \<and> edge_key y = edge_key ex_c"
    by blast
  from inst mem(1) ex_vals(1)
  have one: "\<exists>!x. x \<in> set (dedup_edges [ex_a, ex_b, ex_c, ex_d, ex_e])
             \<and> edge_key x = edge_key ex_a"
    by blast
  from mem ex_vals(1,3,5,7) spec two one show ?thesis by blast
qed

subsection \<open>C4\<close>

text \<open>
  Claim C4. Every term of the frontier a round returns is the whitespace-normalised target
  of a triple that the Concept or the Entity adapter (when enabled) returned for one of the
  round's agents, so no output of the Term-Definition adapter is enqueued; it is not
  empty, trimmed and single-spaced; it is not equal, ignoring case, to any agent of the
  round's input; and no two terms of the frontier are equal ignoring case.
\<close>

theorem C4_next_frontier:
  assumes "expand_once ev cfg agent_list = Inr (es, frontier)"
  shows "(\<forall>x \<in> set frontier.
            x \<noteq> [] \<and> trimmed x \<and> single_spaced x
            \<and> (\<forall>a \<in> set agent_list. lower x \<noteq> lower a)
            \<and> (\<exists>a \<in> set agent_list. \<exists>t. fetched ev cfg a t \<and> x = norm_ws (target t)))
         \<and> distinct (map lower frontier)"
proof -
  from expand_once_Inr [OF assms] obtain picked raw nq where
    pick: "pick_hard_agents_via_gpt ev agent_list = Inr picked"
    and loop: "expand_loop ev cfg (if picked = [] then agent_list else picked) [] [] = Inr (raw, nq)"
    and fr: "frontier = next_frontier agent_list nq"
    by blast
  note sub = hard_agents_subset [OF pick]
  have fr': "frontier = frontier_from (set (map lower agent_list)) {} nq"
    using fr by (simp add: next_frontier_eq)
  have dist: "distinct (map lower frontier)"
    unfolding fr' by (rule frontier_from_distinct)
  have each: "x \<noteq> [] \<and> trimmed x \<and> single_spaced x
            \<and> (\<forall>a \<in> set agent_list. lower x \<noteq> lower a)
            \<and> (\<exists>a \<in> set agent_list. \<exists>t. fetched ev cfg a t \<and> x = norm_ws (target t))"
    if "x \<in> set frontier" for x
  proof -
    from that have "x \<in> set (frontier_from (set (map lower agent_list)) {} nq)"
      by (simp add: fr')
    from frontier_from_sound [OF this] obtain y where
      x: "x \<noteq> []" "lower x \<notin> set (map lower agent_list)" "y \<in> set nq" "x = norm_ws y"
      by blast
    from expand_loop_queue [OF loop x(3)] obtain a new_es new_q where
      a: "a \<in> set (if picked = [] then agent_list else picked)"
         "expand_agent ev cfg a = Inr (new_es, new_q)" "y \<in> set new_q"
      by auto
    from expand_agent_queue [OF a(2,3)] obtain t where
      t: "fetched ev cfg a t" "y = target t"
      by blast
    from a(1) sub have a_in: "a \<in> set agent_list" by blast
    have xt: "x = norm_ws (target t)" using x(4) t(2) by simp
    have src: "\<exists>a \<in> set agent_list. \<exists>t. fetched ev cfg a t \<and> x = norm_ws (target t)"
      by (rule bexI [OF _ a_in], rule exI [of _ t], rule conjI, rule t(1), rule xt)
    have low: "\<forall>a \<in> set agent_list. lower x \<noteq> lower a" using x(2) by auto
    have tr: "trimmed x" "single_spaced x"
      unfolding x(4) by (rule norm_ws_trimmed, rule norm_ws_single_spaced)
    show ?thesis by (intro conjI) (fact x(1) tr low src)+
  qed
  show ?thesis
    by (rule conjI, rule ballI, erule each, rule dist)
qed

theorem C4_next_frontier_witness:
  "expand_once ex_env ex_cfg [''Controller''] = Inr (ex_step, ex_frontier)
   \<and> fetched ex_env ex_cfg ''Controller''
        \<lparr>source = ''Controller'', relation = ''subject'', target = ''CONTROLLER''\<rparr>
   \<and> ex_frontier = [''control'', ''Data Manager'', ''regulator'', ''Device'']
   \<and> list_all (\<lambda>x. x \<noteq> [] \<and> trimmed x \<and> single_spaced x
                    \<and> lower x \<noteq> lower ''Controller''
                    \<and> (\<exists>t. fetched ex_env ex_cfg ''Controller'' t \<and> x = norm_ws (target t)))
        ex_frontier
   \<and> distinct (map lower ex_frontier)"
proof -
  note inst = C4_next_frontier [OF ex_round]
  have use: "use_entity_graph ex_cfg"
    and got: "fetch_dbpedia_triples ex_env ''Controller'' (entity_max ex_cfg)
      = Inr [\<lparr>source = ''Controller'', relation = ''type'', target = ''Device''\<rparr>,
             \<lparr>source = ''Controller'', relation = ''subject'', target = ''CONTROLLER''\<rparr>]"
    by code_simp+
  have a: "fetched ex_env ex_cfg ''Controller''
        \<lparr>source = ''Controller'', relation = ''subject'', target = ''CONTROLLER''\<rparr>"
    unfolding fetched_def using use got by simp
  have b: "ex_frontier = [''control'', ''Data Manager'', ''regulator'', ''Device'']"
    by (rule ex_frontier_def)
  from inst have "\<forall>x \<in> set ex_frontier. x \<noteq> [] \<and> trimmed x \<and> single_spaced x
                    \<and> (\<forall>a \<in> set [''Controller'']. lower x \<noteq> lower a)
                    \<and> (\<exists>a \<in> set [''Controller'']. \<exists>t.
                          fetched ex_env ex_cfg a t \<and> x = norm_ws (target t))"
    by (elim conjE)
  then have c: "list_all (\<lambda>x. x \<noteq> [] \<and> trimmed x \<and> single_spaced x
                    \<and> lower x \<noteq> lower ''Controller''
                    \<and> (\<exists>t. fetched ex_env ex_cfg ''Controller'' t \<and> x = norm_ws (target t)))
        ex_frontier"
    unfolding list_all_iff by simp
  from inst have d: "distinct (map lower ex_frontier)" by (elim conjE)
  show ?thesis by (intro conjI) (fact ex_round a b c d)+
qed

subsection \<open>C5\<close>

text \<open>
  Claim C5 says that the final edge count is at least the seed edge count. The seed edges
  are not deduplicated when they are counted: two event records that differ only in the
  case of the agent and of the action give two seed edges with one identity key, and with
  no source enabled the final graph has one edge.
\<close>

theorem C5_seed_count_counterexample:
  "length (eventic_to_triples ex_rows2) = 2
   \<and> build_fusion_graph ex_env ex_cfg_off ex_rows2 = Inr ex_seed_graph
   \<and> length (edges ex_seed_graph) = 1
   \<and> \<not> length (eventic_to_triples ex_rows2) \<le> length (edges ex_seed_graph)"
  by code_simp

text \<open>
  Claim C5 as amended. The edges of the final graph are the deduplicated list of the seed
  edges followed by the step edges of all rounds. The deduplicated seed edges are a prefix
  of it, so the final edge count is at least the number of deduplicated seed edges; and
  every seed edge with three non-empty fields and every edge collected in any round has an
  edge with its identity key in the final graph: an edge is lost only to an earlier edge
  with an equal key.
\<close>

theorem C5_monotonic_accumulation:
  assumes "build_fusion_graph ev cfg rows = Inr g"
  shows "edges g = dedup_edges (eventic_to_triples rows
           @ collected ev cfg (nat (max 0 (rounds cfg))) (extract_agents_from_eventic rows))
         \<and> prefix (dedup_edges (eventic_to_triples rows)) (edges g)
         \<and> length (dedup_edges (eventic_to_triples rows)) \<le> length (edges g)
         \<and> (\<forall>e \<in> set (eventic_to_triples rows). populated e \<longrightarrow>
              (\<exists>x \<in> set (edges g). edge_key x = edge_key e))
         \<and> (\<forall>e \<in> set (collected ev cfg (nat (max 0 (rounds cfg)))
                          (extract_agents_from_eventic rows)).
              \<exists>x \<in> set (edges g). edge_key x = edge_key e)"
proof -
  define seed where "seed = eventic_to_triples rows"
  define coll where "coll = collected ev cfg (nat (max 0 (rounds cfg)))
                              (extract_agents_from_eventic rows)"
  have g: "edges g = dedup_edges (seed @ coll)"
    using build_fusion_graph_Inr [OF assms] by (simp add: seed_def coll_def)
  have pre: "prefix (dedup_edges seed) (edges g)"
    unfolding g dedup_edges_append by simp
  have len: "length (dedup_edges seed) \<le> length (edges g)"
    using pre by (rule prefix_length_le)
  have s: "\<exists>x \<in> set (edges g). edge_key x = edge_key e" if "e \<in> set seed" "populated e" for e
    unfolding g using dedup_has_key [of e "seed @ coll"] that by simp
  have c: "\<exists>x \<in> set (edges g). edge_key x = edge_key e" if "e \<in> set coll" for e
  proof -
    from that have "populated e" unfolding coll_def by (rule collected_populated)
    with that show ?thesis
      unfolding g using dedup_has_key [of e "seed @ coll"] by simp
  qed
  from g pre len s c show ?thesis
    unfolding seed_def coll_def by blast
qed

theorem C5_monotonic_accumulation_witness:
  "build_fusion_graph ex_env ex_cfg ex_rows = Inr ex_graph
   \<and> length (dedup_edges (eventic_to_triples ex_rows)) = 1
   \<and> length (edges ex_graph) = 6
   \<and> ex_step \<noteq> []
   \<and> prefix (dedup_edges (eventic_to_triples ex_rows)) (edges ex_graph)
   \<and> list_all (\<lambda>e. \<exists>x \<in> set (edges ex_graph). edge_key x = edge_key e) ex_step"
proof -
  have a: "length (dedup_edges (eventic_to_triples ex_rows)) = 1"
    and b: "length (edges ex_graph) = 6"
    and c: "ex_step \<noteq> []"
    by code_simp+
  note inst = C5_monotonic_accumulation [OF ex_run]
  from inst have d: "prefix (dedup_edges (eventic_to_triples ex_rows)) (edges ex_graph)"
    by (elim conjE)
  from inst have "\<forall>e \<in> set (collected ex_env ex_cfg (nat (max 0 (rounds ex_cfg)))
                          (extract_agents_from_eventic ex_rows)).
              \<exists>x \<in> set (edges ex_graph). edge_key x = edge_key e"
    by (elim conjE)
  then have e: "list_all (\<lambda>e. \<exists>x \<in> set (edges ex_graph). edge_key x = edge_key e) ex_step"
    unfolding ex_collected list_all_iff .
  show ?thesis by (intro conjI) (fact ex_run a b c d e)+
qed

subsection \<open>C6\<close>

text \<open>
  Claim C6 says that the Relevance Filter returns its candidates in the order of its input.
  The loop walks the model's keep list, not the candidates: with the candidates
  Tesla, GDPR, Seller and a keep list that names GDPR before Tesla, the filter returns
  GDPR before Tesla, which is not the input order.
\<close>

theorem C6_input_order_counterexample:
  "pick_hard_agents_via_gpt env_swap [''Tesla'', ''GDPR'', ''Seller''] = Inr [''GDPR'', ''Tesla'']
   \<and> \<not> subseq [''GDPR'', ''Tesla''] [''Tesla'', ''GDPR'', ''Seller'']"
proof
  show "pick_hard_agents_via_gpt env_swap [''Tesla'', ''GDPR'', ''Seller'']
          = Inr [''GDPR'', ''Tesla'']"
    by code_simp
  show "\<not> subseq [''GDPR'', ''Tesla''] [''Tesla'', ''GDPR'', ''Seller'']"
    by simp
qed

text \<open>
  Claim C6 as amended. When the model call answers and its keep list is read, the filter
  returns candidates only, never another string. They come in the order of the keep list:
  of the normalised, lowercased keep entries that are the lowercase form of a candidate,
  each is answered once, where the keep list first names it, by the last candidate with
  that lowercase form. So no two returned candidates are equal ignoring case, and the
  order need not be the order of the input.
\<close>

theorem C6_filter_subset_in_keep_order:
  assumes "cands \<noteq> []" "chat_filter ev cands = Inr text"
    "filter_data ev text = Inr data" "keep_of data = Inr keep"
  shows "pick_hard_agents_via_gpt ev cands = Inr (pick_from_keep ev cands keep)
         \<and> pick_from_keep ev cands keep
             = map (named_candidate cands)
                 (first_mentions
                    (filter (\<lambda>k. k \<in> set (map lower cands)) (keep_keys ev keep)))
         \<and> map lower (pick_from_keep ev cands keep)
             = first_mentions
                 (filter (\<lambda>k. k \<in> set (map lower cands)) (keep_keys ev keep))
         \<and> set (pick_from_keep ev cands keep) \<subseteq> set cands
         \<and> lower ` set (pick_from_keep ev cands keep) \<subseteq> set (keep_keys ev keep)
         \<and> distinct (map lower (pick_from_keep ev cands keep))
         \<and> subseq (map lower (pick_from_keep ev cands keep)) (keep_keys ev keep)"
proof -
  have a: "pick_hard_agents_via_gpt ev cands = Inr (pick_from_keep ev cands keep)"
    using assms by (simp add: pick_hard_agents_via_gpt_def)
  have b: "pick_from_keep ev cands keep
             = map (named_candidate cands)
                 (first_mentions
                    (filter (\<lambda>k. k \<in> set (map lower cands)) (keep_keys ev keep)))"
    by (rule pick_from_keep_exact)
  have c: "map lower (pick_from_keep ev cands keep)
             = first_mentions
                 (filter (\<lambda>k. k \<in> set (map lower cands)) (keep_keys ev keep))"
    by (rule lower_pick_from_keep)
  have d: "set (pick_from_keep ev cands keep) \<subseteq> set cands"
    and e: "lower ` set (pick_from_keep ev cands keep) \<subseteq> set (keep_keys ev keep)"
    using picked_from_sound [of _ cands "{}" "keep_keys ev keep"]
    by (auto simp: pick_from_keep_eq)
  have f: "distinct (map lower (pick_from_keep ev cands keep))"
    by (simp add: pick_from_keep_eq picked_from_distinct)
  have g: "subseq (map lower (pick_from_keep ev cands keep)) (keep_keys ev keep)"
    by (simp add: pick_from_keep_eq picked_from_subseq)
  show ?thesis by (intro conjI) (fact a b c d e f g)+
qed

theorem C6_filter_subset_in_keep_order_witness:
  "ex_cands \<noteq> []
   \<and> chat_filter env_swap ex_cands = Inr ''keep-first''
   \<and> filter_data env_swap ''keep-first'' = Inr (JObj [(''keep'', JArr ex_keep)])
   \<and> keep_of (JObj [(''keep'', JArr ex_keep)]) = Inr ex_keep
   \<and> keep_keys env_swap ex_keep = [''gdpr'', ''tesla'', ''acme'', ''gdpr'', ''none'']
   \<and> first_mentions (filter (\<lambda>k. k \<in> set (map lower ex_cands)) (keep_keys env_swap ex_keep))
       = [''gdpr'', ''tesla'']
   \<and> map (named_candidate ex_cands) [''gdpr'', ''tesla''] = [''GDPR'', ''Tesla'']
   \<and> pick_hard_agents_via_gpt env_swap ex_cands = Inr [''GDPR'', ''Tesla'']"
proof -
  have a: "ex_cands \<noteq> []"
    and b: "chat_filter env_swap ex_cands = Inr ''keep-first''"
    and c: "filter_data env_swap ''keep-first'' = Inr (JObj [(''keep'', JArr ex_keep)])"
    and d: "keep_of (JObj [(''keep'', JArr ex_keep)]) = Inr ex_keep"
    and e: "keep_keys env_swap ex_keep = [''gdpr'', ''tesla'', ''acme'', ''gdpr'', ''none'']"
    and f: "first_mentions (filter (\<lambda>k. k \<in> set (map lower ex_cands)) (keep_keys env_swap ex_keep))
       = [''gdpr'', ''tesla'']"
    and g: "map (named_candidate ex_cands) [''gdpr'', ''tesla''] = [''GDPR'', ''Tesla'']"
    by code_simp+
  note inst = C6_filter_subset_in_keep_order [OF a b c d]
  have h: "pick_hard_agents_via_gpt env_swap ex_cands = Inr [''GDPR'', ''Tesla'']"
    unfolding conjunct1 [OF inst] conjunct1 [OF conjunct2 [OF inst]] f g ..
  show ?thesis by (intro conjI) (fact a b c d e f g h)+
qed

subsection \<open>C7\<close>

text \<open>
  Claim C7 says that the adapter returns exactly one triple for every keyword, never zero.
  When the model call answers it does (\<open>one_definition_when_answered\<close>), and its parser
  falls back to the placeholder with the empty target. The model call itself is outside
  every guard: with the model unavailable the call raises, and the adapter returns no
  list, not the placeholder.
\<close>

theorem C7_failing_call_returns_no_triple:
  "chat_define env_down ''GDPR'' = Inl APIError
   \<and> build_term_definition_triples env_down ''GDPR'' = Inl APIError
   \<and> build_term_definition_triples env_down ''GDPR''
       \<noteq> Inr [\<lparr>source = ''GDPR'', relation = ''IsA'', target = []\<rparr>]"
  by code_simp

subsection \<open>C8\<close>

text \<open>
  Claim C8. With \<open>rounds = 0\<close> the result is, for every environment, the graph whose
  edges are the seed edges of the event records, deduplicated as the specification words
  it; for records of the specification's shape the seed edges are the specification's
  conversion of them. No answer of the filter or of an adapter is read: the result is the
  one of the environment in which every call raises.
\<close>

theorem C8_zero_rounds:
  "build_fusion_graph ev (cfg\<lparr>rounds := 0\<rparr>) eventic_edges
     = Inr \<lparr>edges = dedup_spec (eventic_to_triples eventic_edges)\<rparr>
   \<and> build_fusion_graph ev (cfg\<lparr>rounds := 0\<rparr>) (map event_record rs)
     = Inr \<lparr>edges = dedup_spec (seed_spec rs)\<rparr>
   \<and> build_fusion_graph ev (cfg\<lparr>rounds := 0\<rparr>) eventic_edges
     = build_fusion_graph env_down (cfg\<lparr>rounds := 0\<rparr>) eventic_edges"
proof (intro conjI)
  show "build_fusion_graph ev (cfg\<lparr>rounds := 0\<rparr>) eventic_edges
     = Inr \<lparr>edges = dedup_spec (eventic_to_triples eventic_edges)\<rparr>"
    by (simp add: build_zero dedup_edges_spec)
  have "dedup_edges (eventic_to_triples (map event_record rs)) = dedup_edges (seed_spec rs)"
    by (simp add: eventic_to_triples_records dedup_edges_map_canon)
  then show "build_fusion_graph ev (cfg\<lparr>rounds := 0\<rparr>) (map event_record rs)
     = Inr \<lparr>edges = dedup_spec (seed_spec rs)\<rparr>"
    by (simp add: build_zero dedup_edges_spec)
  show "build_fusion_graph ev (cfg\<lparr>rounds := 0\<rparr>) eventic_edges
     = build_fusion_graph env_down (cfg\<lparr>rounds := 0\<rparr>) eventic_edges"
    by (simp add: build_zero)
qed

theorem C8_zero_rounds_witness:
  "ex_cfg_zero = ex_cfg\<lparr>rounds := 0\<rparr>
   \<and> length (map event_record ex_events) = 4
   \<and> build_fusion_graph env_down ex_cfg_zero (map event_record ex_events)
       = Inr \<lparr>edges =
           [\<lparr>source = ''Controller'', relation = ''must'', target = ''delete personal data'',
             source_graph = ''eventic''\<rparr>,
            \<lparr>source = ''Processor'', relation = ''must_not'', target = ''transfer data'',
             source_graph = ''eventic''\<rparr>]\<rparr>
   \<and> build_fusion_graph ex_env ex_cfg_zero (map event_record ex_events)
       = build_fusion_graph env_down ex_cfg_zero (map event_record ex_events)"
proof -
  note inst = C8_zero_rounds [of env_down ex_cfg "map event_record ex_events" ex_events]
  note inst' = C8_zero_rounds [of ex_env ex_cfg "map event_record ex_events" ex_events]
  have a: "ex_cfg_zero = ex_cfg\<lparr>rounds := 0\<rparr>" by (rule ex_cfg_zero_def)
  have b: "length (map event_record ex_events) = 4" by code_simp
  have c: "build_fusion_graph env_down ex_cfg_zero (map event_record ex_events)
       = Inr \<lparr>edges =
           [\<lparr>source = ''Controller'', relation = ''must'', target = ''delete personal data'',
             source_graph = ''eventic''\<rparr>,
            \<lparr>source = ''Processor'', relation = ''must_not'', target = ''transfer data'',
             source_graph = ''eventic''\<rparr>]\<rparr>"
    unfolding a conjunct1 [OF conjunct2 [OF inst]]
      dedup_edges_spec [symmetric] ex_seed_dedup ..
  have d: "build_fusion_graph ex_env ex_cfg_zero (map event_record ex_events)
       = build_fusion_graph env_down ex_cfg_zero (map event_record ex_events)"
    unfolding a by (rule conjunct2 [OF conjunct2 [OF inst']])
  show ?thesis by (intro conjI) (fact a b c d)+
qed

subsection \<open>C9\<close>

text \<open>
  Claim C9 says that the result has at most \<open>max_count\<close> triples whenever
  \<open>max_count\<close> is given. The cut is the slice \<open>triples[:max_num]\<close>, which for a negative
  bound drops that many triples from the end: of the three triples that pass the weight
  test and the deduplication below, a bound of \<open>-1\<close> leaves two.
\<close>

theorem C9_negative_max_count_counterexample:
  "conceptnet_get ex_env (norm_term ex_env ''Controller'') = Body ex_body
   \<and> fetch_conceptnet_triples ex_env ''Controller'' None 4 (Some (- 1))
       = Inr [\<lparr>source = ''controller'', relation = ''UsedFor'', target = ''control''\<rparr>,
              \<lparr>source = ''controller'', relation = ''IsA'', target = ''Data  Manager''\<rparr>]
   \<and> length (cn_result ex_body None 4 (Some (- 1))) = 2
   \<and> \<not> int (length (cn_result ex_body None 4 (Some (- 1)))) \<le> - 1"
  by code_simp

text \<open>
  Claim C9 as amended. For a request that succeeds, the adapter returns the triples of a
  ranked list with the weights removed. Every triple of that list is made of an element of
  the response whose weight is at least \<open>min_weight\<close> (and whose relation passes the
  relation filter); no two returned triples have the same key (lowercase source, relation,
  lowercase target), while every accepted element has its key in the uncut result; the
  weights descend along the list; and when \<open>max_count\<close> is given and is not negative the
  result is the first \<open>max_count\<close> triples of the uncut one, so it has at most
  \<open>max_count\<close> triples.
\<close>

theorem C9_concept_adapter:
  assumes "conceptnet_get ev (norm_term ev keyword) = Body body"
  shows "fetch_conceptnet_triples ev keyword relations min_weight max_num
           = Inr (cn_result body relations min_weight max_num)
         \<and> cn_result body relations min_weight max_num
           = map pop_weight (cn_ranked body relations min_weight max_num)
         \<and> (\<forall>t \<in> set (cn_ranked body relations min_weight max_num).
               min_weight \<le> weight t
               \<and> (\<exists>e \<in> set body. cn_accepts relations min_weight e \<and> t = cn_triple e))
         \<and> distinct (map triple_key (cn_result body relations min_weight max_num))
         \<and> (\<forall>e \<in> set body. cn_accepts relations min_weight e \<longrightarrow>
               triple_key (cn_triple e)
                 \<in> triple_key ` set (cn_result body relations min_weight None))
         \<and> sorted_wrt (\<lambda>a b. weight b \<le> weight a)
               (cn_ranked body relations min_weight max_num)
         \<and> (\<forall>m. max_num = Some m \<and> 0 \<le> m \<longrightarrow>
               cn_result body relations min_weight max_num
                 = take (nat m) (cn_result body relations min_weight None)
               \<and> length (cn_result body relations min_weight max_num) \<le> nat m)"
proof -
  have f: "fetch_conceptnet_triples ev keyword relations min_weight max_num
             = Inr (cn_result body relations min_weight max_num)"
    using assms by (simp add: fetch_conceptnet_triples_def)
  have r: "cn_result body relations min_weight mx
             = map pop_weight (cn_ranked body relations min_weight mx)" for mx
    by (rule cn_result_def)
  have keys: "map triple_key (map pop_weight ws) = map triple_key ws" for ws :: "wtriple list"
    by (simp add: triple_key_pop_weight)
  have a: "\<forall>t \<in> set (cn_ranked body relations min_weight max_num).
               min_weight \<le> weight t
               \<and> (\<exists>e \<in> set body. cn_accepts relations min_weight e \<and> t = cn_triple e)"
    using cn_ranked_sound by blast
  have b: "distinct (map triple_key (cn_result body relations min_weight max_num))"
    unfolding r keys by (rule cn_ranked_distinct)
  have c: "\<forall>e \<in> set body. cn_accepts relations min_weight e \<longrightarrow>
               triple_key (cn_triple e)
                 \<in> triple_key ` set (cn_result body relations min_weight None)"
  proof (intro ballI impI)
    fix e assume "e \<in> set body" "cn_accepts relations min_weight e"
    from cn_ranked_complete [OF this] obtain t where
      t: "t \<in> set (cn_ranked body relations min_weight None)"
         "triple_key (cn_triple e) = triple_key t" by blast
    from t(1) have "pop_weight t \<in> set (cn_result body relations min_weight None)"
      unfolding r by simp
    moreover from t(2) have "triple_key (cn_triple e) = triple_key (pop_weight t)"
      by (simp add: triple_key_pop_weight)
    ultimately show "triple_key (cn_triple e)
                 \<in> triple_key ` set (cn_result body relations min_weight None)"
      by (rule image_eqI [rotated])
  qed
  have d: "sorted_wrt (\<lambda>a b. weight b \<le> weight a)
               (cn_ranked body relations min_weight max_num)"
    by (rule cn_ranked_sorted)
  have e: "\<forall>m. max_num = Some m \<and> 0 \<le> m \<longrightarrow>
               cn_result body relations min_weight max_num
                 = take (nat m) (cn_result body relations min_weight None)
               \<and> length (cn_result body relations min_weight max_num) \<le> nat m"
  proof (intro allI impI)
    fix m assume m: "max_num = Some m \<and> 0 \<le> m"
    then have "cn_ranked body relations min_weight max_num
                 = take (nat m) (cn_ranked body relations min_weight None)"
      by (simp add: cn_ranked_Some py_take_def)
    then show "cn_result body relations min_weight max_num
                 = take (nat m) (cn_result body relations min_weight None)
               \<and> length (cn_result body relations min_weight max_num) \<le> nat m"
      unfolding r by (simp add: take_map)
  qed
  show ?thesis by (intro conjI) (fact f r a b c d e)+
qed

theorem C9_concept_adapter_witness:
  "conceptnet_get ex_env (norm_term ex_env ''Controller'') = Body ex_body
   \<and> cn_ranked ex_body None 4 None = ex_ranked
   \<and> cn_ranked ex_body None 4 (Some 2) = take 2 ex_ranked
   \<and> length ex_body = 5
   \<and> list_all (\<lambda>t. 4 \<le> weight t) ex_ranked
   \<and> sorted_wrt (\<lambda>a b. weight b \<le> weight a) ex_ranked
   \<and> fetch_conceptnet_triples ex_env ''Controller'' None 4 (Some 2)
       = Inr (cn_result ex_body None 4 (Some 2))
   \<and> cn_result ex_body None 4 (Some 2) = map pop_weight (take 2 ex_ranked)
   \<and> cn_result ex_body None 4 (Some 2) = take (nat 2) (cn_result ex_body None 4 None)
   \<and> length (cn_result ex_body None 4 (Some 2)) \<le> nat 2
   \<and> distinct (map triple_key (cn_result ex_body None 4 (Some 2)))"
proof -
  have r0: "cn_ranked ex_body None 4 None = ex_ranked"
    and r2: "cn_ranked ex_body None 4 (Some 2) = take 2 ex_ranked"
    and len: "length ex_body = 5"
    by code_simp+
  note i0 = C9_concept_adapter [OF ex_cn_get, of None 4 None]
  note i2 = C9_concept_adapter [OF ex_cn_get, of None 4 "Some 2"]
  note i0' = conjunct2 [OF conjunct2 [OF i0]]
  note i2' = conjunct2 [OF conjunct2 [OF i2]]
  have "\<forall>t \<in> set (cn_ranked ex_body None 4 None). 4 \<le> weight t"
    using conjunct1 [OF i0'] by blast
  then have a: "list_all (\<lambda>t. 4 \<le> weight t) ex_ranked"
    unfolding r0 list_all_iff .
  have b: "sorted_wrt (\<lambda>a b. weight b \<le> weight a) ex_ranked"
    using conjunct1 [OF conjunct2 [OF conjunct2 [OF conjunct2 [OF i0']]]]
    unfolding r0 .
  have c: "fetch_conceptnet_triples ex_env ''Controller'' None 4 (Some 2)
       = Inr (cn_result ex_body None 4 (Some 2))"
    by (rule conjunct1 [OF i2])
  have c': "cn_result ex_body None 4 (Some 2) = map pop_weight (take 2 ex_ranked)"
    using conjunct1 [OF conjunct2 [OF i2]] unfolding r2 .
  have d: "distinct (map triple_key (cn_result ex_body None 4 (Some 2)))"
    by (rule conjunct1 [OF conjunct2 [OF i2']])
  have "Some (2::int) = Some 2 \<and> (0::int) \<le> 2" by simp
  with conjunct2 [OF conjunct2 [OF conjunct2 [OF conjunct2 [OF i2']]]]
  have e: "cn_result ex_body None 4 (Some 2) = take (nat 2) (cn_result ex_body None 4 None)
     \<and> length (cn_result ex_body None 4 (Some 2)) \<le> nat 2"
    by blast
  show ?thesis
    by (intro conjI) (fact ex_cn_get r0 r2 len a b c c' d conjunct1 [OF e] conjunct2 [OF e])+
qed

subsection \<open>C10\<close>

text \<open>
  Claim C10. The Deduplicator drops the edges with an empty normalised source, relation or
  target (removing them from its input beforehand changes nothing, and every edge it
  returns is the stored form of an input edge with three non-empty fields). So every edge
  of a graph returned by \<open>build_fusion_graph\<close> has three non-empty fields that are
  trimmed and in which every whitespace character is a single blank.
\<close>

theorem C10_no_empty_fields:
  "dedup_edges (filter populated es) = dedup_edges es
   \<and> (\<forall>x \<in> set (dedup_edges es). \<exists>e \<in> set es. populated e \<and> x = canon e)
   \<and> (build_fusion_graph ev cfg eventic_edges = Inr g \<longrightarrow>
        (\<forall>x \<in> set (edges g).
           source x \<noteq> [] \<and> relation x \<noteq> [] \<and> target x \<noteq> []
           \<and> trimmed (source x) \<and> single_spaced (source x)
           \<and> trimmed (relation x) \<and> single_spaced (relation x)
           \<and> trimmed (target x) \<and> single_spaced (target x)))"
proof (intro conjI impI)
  show "dedup_edges (filter populated es) = dedup_edges es"
    by (rule dedup_edges_filter_populated)
next
  show "\<forall>x \<in> set (dedup_edges es). \<exists>e \<in> set es. populated e \<and> x = canon e"
    using dedup_canonical by blast
next
  assume "build_fusion_graph ev cfg eventic_edges = Inr g"
  from build_edges_dedup [OF this] obtain fe where "edges g = dedup_edges fe" ..
  then show "\<forall>x \<in> set (edges g).
           source x \<noteq> [] \<and> relation x \<noteq> [] \<and> target x \<noteq> []
           \<and> trimmed (source x) \<and> single_spaced (source x)
           \<and> trimmed (relation x) \<and> single_spaced (relation x)
           \<and> trimmed (target x) \<and> single_spaced (target x)"
    using dedup_edge_shape [of _ fe] by simp
qed

theorem C10_no_empty_fields_witness:
  "build_fusion_graph ex_env ex_cfg ex_rows = Inr ex_graph
   \<and> edges ex_graph \<noteq> []
   \<and> \<not> populated ex_e
   \<and> dedup_edges (filter populated [ex_a, ex_e]) = dedup_edges [ex_a, ex_e]
   \<and> dedup_edges [ex_a, ex_e] = [canon ex_a]
   \<and> list_all (\<lambda>x.
           source x \<noteq> [] \<and> relation x \<noteq> [] \<and> target x \<noteq> []
           \<and> trimmed (source x) \<and> single_spaced (source x)
           \<and> trimmed (relation x) \<and> single_spaced (relation x)
           \<and> trimmed (target x) \<and> single_spaced (target x)) (edges ex_graph)"
proof -
  have a: "\<not> populated ex_e" "dedup_edges [ex_a, ex_e] = [canon ex_a]" "edges ex_graph \<noteq> []"
    by code_simp+
  note inst = C10_no_empty_fields [of "[ex_a, ex_e]" ex_env ex_cfg ex_rows ex_graph]
  from inst have b: "dedup_edges (filter populated [ex_a, ex_e]) = dedup_edges [ex_a, ex_e]"
    by blast
  from inst ex_run have c: "list_all (\<lambda>x.
           source x \<noteq> [] \<and> relation x \<noteq> [] \<and> target x \<noteq> []
           \<and> trimmed (source x) \<and> single_spaced (source x)
           \<and> trimmed (relation x) \<and> single_spaced (relation x)
           \<and> trimmed (target x) \<and> single_spaced (target x)) (edges ex_graph)"
    unfolding list_all_iff by blast
  from ex_run a b c show ?thesis by blast
qed

end
